theory Spec2Isabelle
  imports Complex_Main "HOL-Library.Multiset"
begin

section \<open>Linear systems of basic\_semialgebraic\_linear\_system.py\<close>

text \<open>
  The class \<open>BasicSemialgebraicSet_polyhedral_linear_system\<close> keeps three Python sets of
  polynomials of degree at most one over a polynomial ring: \<open>_eq\<close> (read \<open>p = 0\<close>),
  \<open>_lt\<close> (\<open>p < 0\<close>) and \<open>_le\<close> (\<open>p \<le> 0\<close>). The base ring is an ordered field, here any type of
  class \<open>linordered_field\<close>; a polynomial ring is the list of the names of its generators.
\<close>

subsection \<open>Exceptions\<close>

datatype error =
    ValueError_must_specify_poly_ring
  | ValueError_not_linear
  | ValueError_not_proper_poly_ring
  | ValueError_no_elimination_variable
  | ValueError_coordinate_not_found
  | ValueError_unsupported_operator
  | ValueError_length_mismatch
  | ValueError_section_map
  | TypeError_cannot_convert
  | AttributeError
  | KeyError
  | IndexError

subsection \<open>Ring elements\<close>

text \<open>
  A polynomial of degree at most one is its constant coefficient and the list of its
  \<open>monomial_coefficient\<close>s, one for each generator of the ring.
\<close>

datatype 'a linpoly = LinPoly (constant_coefficient: 'a) (coeffs: "'a list")

text \<open>
  What a caller hands to the constructor or to \<open>add_polynomial_constraint\<close> is either an
  element of the base ring, or a polynomial of some polynomial ring: its parent, its part of
  degree at most one, and its terms of higher degree. A term of higher degree is a coefficient
  on a monomial \<open>x\<^sub>i * x\<^sub>j * x\<^sub>k\<^sub>1 * ...\<close> with at least two factors.
\<close>

type_synonym 'a higher_term = "(nat \<times> nat \<times> nat list) \<times> 'a"

datatype ('v, 'a) element =
    Scalar 'a
  | Poly "'v list" "'a linpoly" "'a higher_term list"

datatype 'v parent_ring = BaseRing | PolynomialRing "'v list"

fun parent :: "('v, 'a) element \<Rightarrow> 'v parent_ring" where
  "parent (Scalar c) = BaseRing"
| "parent (Poly R p hs) = PolynomialRing R"

text \<open>The total degrees of the terms with a non-zero coefficient; the zero polynomial has degree -1.\<close>

fun term_degrees :: "('v, 'a::zero) element \<Rightarrow> int list" where
  "term_degrees (Scalar c) = (if c = 0 then [] else [0])"
| "term_degrees (Poly R p hs) =
     (if constant_coefficient p = 0 then [] else [0])
     @ map (\<lambda>a. 1) (filter (\<lambda>a. a \<noteq> 0) (coeffs p))
     @ map (\<lambda>h. 2 + int (length (snd (snd (fst h))))) (filter (\<lambda>h. snd h \<noteq> 0) hs)"

definition degree :: "('v, 'a::zero) element \<Rightarrow> int" where
  "degree e = foldr max (term_degrees e) (-1)"

text \<open>
  The parent the coercion model finds for a list of elements: base ring elements coerce into
  every polynomial ring; polynomials of two different rings are taken to have no parent in
  common that is one of the two.
\<close>

fun join_parent :: "'v parent_ring \<Rightarrow> 'v parent_ring \<Rightarrow> 'v parent_ring option" where
  "join_parent BaseRing P = Some P"
| "join_parent (PolynomialRing R) BaseRing = Some (PolynomialRing R)"
| "join_parent (PolynomialRing R) (PolynomialRing R') =
     (if R = R' then Some (PolynomialRing R) else None)"

fun common_parent :: "('v, 'a) element list \<Rightarrow> 'v parent_ring option" where
  "common_parent [] = None"
| "common_parent [e] = Some (parent e)"
| "common_parent (e # es) =
     (case common_parent es of None \<Rightarrow> None | Some P \<Rightarrow> join_parent (parent e) P)"

text \<open>\<open>base_ring(e)\<close> and \<open>poly_ring(e)\<close>: the conversions into the base ring and into the ring.\<close>

fun to_base_ring :: "('v, 'a) element \<Rightarrow> 'a" where
  "to_base_ring (Scalar c) = c"
| "to_base_ring (Poly R p hs) = constant_coefficient p"

fun to_poly_ring :: "nat \<Rightarrow> ('v, 'a::zero) element \<Rightarrow> 'a linpoly" where
  "to_poly_ring n (Scalar c) = LinPoly c (replicate n 0)"
| "to_poly_ring n (Poly R p hs) = p"

definition in_ring :: "'v list \<Rightarrow> 'a linpoly \<Rightarrow> ('v, 'a) element" where
  "in_ring R p = Poly R p []"

subsection \<open>Python sets and the empty dict literal\<close>

text \<open>
  A Python set is a list without repetition, in the order of iteration. The constructor
  replaces \<open>temp_eq\<close> and \<open>temp_lt\<close> by \<open>{}\<close>, which in Python is an empty dict, not a set:
  it can be iterated and measured, but has neither \<open>add\<close> nor \<open>remove\<close>.
\<close>

datatype 'e collection = PySet "'e list" | PyDict

fun members :: "'e collection \<Rightarrow> 'e list" where
  "members (PySet xs) = xs"
| "members PyDict = []"

fun map_collection :: "('e \<Rightarrow> 'f) \<Rightarrow> 'e collection \<Rightarrow> 'f collection" where
  "map_collection f (PySet xs) = PySet (map f xs)"
| "map_collection f PyDict = PyDict"

text \<open>
  Two elements are the same member of a set when they are equal after coercion: a base ring
  element and the constant polynomial of the same value are one member.
\<close>

definition py_eq :: "nat \<Rightarrow> ('v, 'a::zero) element \<Rightarrow> ('v, 'a) element \<Rightarrow> bool" where
  "py_eq n a b = (to_poly_ring n a = to_poly_ring n b)"

fun py_set :: "nat \<Rightarrow> ('v, 'a::zero) element list \<Rightarrow> ('v, 'a) element list" where
  "py_set n [] = []"
| "py_set n (x # xs) = x # filter (\<lambda>y. \<not> py_eq n x y) (py_set n xs)"

fun set_remove ::
  "nat \<Rightarrow> ('v, 'a::zero) element \<Rightarrow> ('v, 'a) element collection \<Rightarrow> error + ('v, 'a) element collection"
where
  "set_remove n e PyDict = Inl AttributeError"
| "set_remove n e (PySet xs) =
     (if list_ex (py_eq n e) xs then Inr (PySet (filter (\<lambda>y. \<not> py_eq n e y) xs))
      else Inl KeyError)"

fun set_add :: "'e \<Rightarrow> 'e collection \<Rightarrow> error + 'e collection" where
  "set_add e PyDict = Inl AttributeError"
| "set_add e (PySet xs) = Inr (PySet (if e \<in> set xs then xs else xs @ [e]))"

subsection \<open>The store and its constructor\<close>

record ('v, 'a) bsa =
  poly_ring :: "'v list"
  ambient_dim :: nat
  eq_poly :: "'a linpoly collection"
  lt_poly :: "'a linpoly collection"
  le_poly :: "'a linpoly collection"

datatype relation = EQ | LT | LE

fun violated :: "relation \<Rightarrow> 'a::linordered_field \<Rightarrow> bool" where
  "violated EQ c = (c \<noteq> 0)"
| "violated LT c = (c \<ge> 0)"
| "violated LE c = (c > 0)"

type_synonym ('v, 'a) temps =
  "('v, 'a) element collection \<times> ('v, 'a) element collection \<times> ('v, 'a) element collection"

definition one_poly :: "nat \<Rightarrow> 'a::{zero,one} linpoly" where
  "one_poly n = LinPoly 1 (replicate n 0)"

text \<open>\<open>temp_le={poly_ring(1)}; temp_eq={}; temp_lt={}\<close>\<close>

definition collapsed :: "'v list \<Rightarrow> ('v, 'a::{zero,one}) temps" where
  "collapsed R = (PyDict, PyDict, PySet [in_ring R (one_poly (length R))])"

fun temp_of :: "relation \<Rightarrow> ('v, 'a) temps \<Rightarrow> ('v, 'a) element collection" where
  "temp_of EQ (teq, tlt, tle) = teq"
| "temp_of LT (teq, tlt, tle) = tlt"
| "temp_of LE (teq, tlt, tle) = tle"

fun temp_update ::
  "relation \<Rightarrow> ('v, 'a) element collection \<Rightarrow> ('v, 'a) temps \<Rightarrow> ('v, 'a) temps" where
  "temp_update EQ c (teq, tlt, tle) = (c, tlt, tle)"
| "temp_update LT c (teq, tlt, tle) = (teq, c, tle)"
| "temp_update LE c (teq, tlt, tle) = (teq, tlt, c)"

text \<open>
  One of the three loops \<open>for e in set(eq)\<close>, \<open>for lt in set(lt)\<close>, \<open>for le in set(le)\<close>:
  an element whose parent is not the ring is a constant; a violated one collapses the
  working sets, a satisfied one is removed from its working set.
\<close>

fun check_constants ::
  "relation \<Rightarrow> 'v list \<Rightarrow> ('v, 'a::linordered_field) element list \<Rightarrow> ('v, 'a) temps
   \<Rightarrow> error + ('v, 'a) temps"
where
  "check_constants r R [] t = Inr t"
| "check_constants r R (e # es) t =
     (if parent e \<noteq> PolynomialRing R then
        (if violated r (to_base_ring e) then check_constants r R es (collapsed R)
         else (case set_remove (length R) e (temp_of r t) of
                 Inl err \<Rightarrow> Inl err
               | Inr c \<Rightarrow> check_constants r R es (temp_update r c t)))
      else check_constants r R es t)"

definition init ::
  "nat option \<Rightarrow> 'v list option \<Rightarrow> ('v, 'a::linordered_field) element list
   \<Rightarrow> ('v, 'a) element list \<Rightarrow> ('v, 'a) element list \<Rightarrow> error + ('v, 'a) bsa"
where
  "init ambient poly_ring_arg eq lt le =
     (case poly_ring_arg of
        None \<Rightarrow> Inl ValueError_must_specify_poly_ring
      | Some R \<Rightarrow>
          let polys = eq @ lt @ le in
          if list_ex (\<lambda>e. degree e > 1) polys then Inl ValueError_not_linear
          else if polys \<noteq> [] \<and> common_parent polys \<noteq> Some (PolynomialRing R)
            then Inl ValueError_not_proper_poly_ring
          else
            let n = length R;
                t0 = (PySet (py_set n eq), PySet (py_set n lt), PySet (py_set n le))
            in case check_constants EQ R (py_set n eq) t0 of
                 Inl err \<Rightarrow> Inl err
               | Inr t1 \<Rightarrow>
                   (case check_constants LT R (py_set n lt) t1 of
                      Inl err \<Rightarrow> Inl err
                    | Inr t2 \<Rightarrow>
                        (case check_constants LE R (py_set n le) t2 of
                           Inl err \<Rightarrow> Inl err
                         | Inr t3 \<Rightarrow>
                             Inr \<lparr>poly_ring = R,
                                  ambient_dim = (case ambient of None \<Rightarrow> n | Some d \<Rightarrow> d),
                                  eq_poly = map_collection (to_poly_ring n) (temp_of EQ t3),
                                  lt_poly = map_collection (to_poly_ring n) (temp_of LT t3),
                                  le_poly = map_collection (to_poly_ring n) (temp_of LE t3)\<rparr>)))"

subsection \<open>Adding constraints\<close>

datatype operator = Op_lt | Op_gt | Op_eq | Op_le | Op_ge | Op_other

definition smult :: "'a::times \<Rightarrow> 'a linpoly \<Rightarrow> 'a linpoly" where
  "smult c p = LinPoly (c * constant_coefficient p) (map (\<lambda>a. c * a) (coeffs p))"

definition padd :: "'a::plus linpoly \<Rightarrow> 'a linpoly \<Rightarrow> 'a linpoly" where
  "padd p q = LinPoly (constant_coefficient p + constant_coefficient q)
                      (map2 (+) (coeffs p) (coeffs q))"

definition psub :: "'a::minus linpoly \<Rightarrow> 'a linpoly \<Rightarrow> 'a linpoly" where
  "psub p q = LinPoly (constant_coefficient p - constant_coefficient q)
                      (map2 (-) (coeffs p) (coeffs q))"

definition pneg :: "'a::uminus linpoly \<Rightarrow> 'a linpoly" where
  "pneg p = LinPoly (- constant_coefficient p) (map uminus (coeffs p))"

definition sdiv :: "'a linpoly \<Rightarrow> 'a::inverse \<Rightarrow> 'a linpoly" where
  "sdiv p c = LinPoly (constant_coefficient p / c) (map (\<lambda>a. a / c) (coeffs p))"

definition add_polynomial_constraint ::
  "('v, 'a::linordered_field) bsa \<Rightarrow> ('v, 'a) element \<Rightarrow> operator \<Rightarrow> error + ('v, 'a) bsa"
where
  "add_polynomial_constraint self lhs op =
     (let R = poly_ring self in
      if parent lhs \<noteq> PolynomialRing R \<and> parent lhs \<noteq> BaseRing then Inl TypeError_cannot_convert
      else if degree lhs > 1 then Inl ValueError_not_linear
      else
        let p = to_poly_ring (length R) lhs in
        (case op of
           Op_lt \<Rightarrow> (case set_add p (lt_poly self) of
                       Inl err \<Rightarrow> Inl err | Inr c \<Rightarrow> Inr (self\<lparr>lt_poly := c\<rparr>))
         | Op_gt \<Rightarrow> (case set_add (pneg p) (lt_poly self) of
                       Inl err \<Rightarrow> Inl err | Inr c \<Rightarrow> Inr (self\<lparr>lt_poly := c\<rparr>))
         | Op_eq \<Rightarrow> (case set_add p (eq_poly self) of
                       Inl err \<Rightarrow> Inl err | Inr c \<Rightarrow> Inr (self\<lparr>eq_poly := c\<rparr>))
         | Op_le \<Rightarrow> (case set_add p (le_poly self) of
                       Inl err \<Rightarrow> Inl err | Inr c \<Rightarrow> Inr (self\<lparr>le_poly := c\<rparr>))
         | Op_ge \<Rightarrow> (case set_add (pneg p) (le_poly self) of
                       Inl err \<Rightarrow> Inl err | Inr c \<Rightarrow> Inr (self\<lparr>le_poly := c\<rparr>))
         | Op_other \<Rightarrow> Inl ValueError_unsupported_operator))"

definition add_linear_constraint ::
  "('v, 'a::linordered_field) bsa \<Rightarrow> 'a list \<Rightarrow> 'a \<Rightarrow> operator \<Rightarrow> error + ('v, 'a) bsa"
where
  "add_linear_constraint self lhs_vector cst op =
     (let R = poly_ring self in
      if length lhs_vector \<noteq> ambient_dim self then Inl ValueError_length_mismatch
      else if length lhs_vector > length R then Inl IndexError
      else add_polynomial_constraint self
             (in_ring R (LinPoly cst (lhs_vector @ replicate (length R - length lhs_vector) 0))) op)"

subsection \<open>Eliminating one variable\<close>

definition monomial_coefficient :: "'a::zero linpoly \<Rightarrow> nat \<Rightarrow> 'a" where
  "monomial_coefficient p k = (if k < length (coeffs p) then coeffs p ! k else 0)"

text \<open>The generator \<open>gens()[k]\<close> of a ring with \<open>n\<close> generators, as a polynomial.\<close>

definition gen :: "nat \<Rightarrow> nat \<Rightarrow> 'a::{zero,one} linpoly" where
  "gen n k = LinPoly 0 ((replicate n 0)[k := 1])"

text \<open>
  Python's \<open>t[i]\<close> on a tuple of length \<open>n\<close> (a negative index counts from the end, an index
  outside \<open>-n .. n-1\<close> raises IndexError) and Python's \<open>list.insert(i, x)\<close>.
\<close>

definition tuple_index :: "nat \<Rightarrow> int \<Rightarrow> nat option" where
  "tuple_index n i =
     (if 0 \<le> i \<and> i < int n then Some (nat i)
      else if - int n \<le> i \<and> i < 0 then Some (nat (i + int n))
      else None)"

definition list_insert :: "int \<Rightarrow> 'x \<Rightarrow> 'x list \<Rightarrow> 'x list" where
  "list_insert i x xs =
     (let n = int (length xs);
          j = (if i < 0 then max 0 (i + n) else min i n)
      in take (nat j) xs @ x # drop (nat j) xs)"

text \<open>
  \<open>l*u.monomial_coefficient(coordinate)-(u*l.monomial_coefficient(coordinate))\<close> and
  \<open>p+p.monomial_coefficient(coordinate)*(sub-coordinate)\<close>.
\<close>

definition combine :: "nat \<Rightarrow> 'a::linordered_field linpoly \<Rightarrow> 'a linpoly \<Rightarrow> 'a linpoly" where
  "combine k l u = psub (smult (monomial_coefficient u k) l) (smult (monomial_coefficient l k) u)"

definition substitute ::
  "nat \<Rightarrow> nat \<Rightarrow> 'a::linordered_field linpoly \<Rightarrow> 'a linpoly \<Rightarrow> 'a linpoly" where
  "substitute n k sub p = padd p (smult (monomial_coefficient p k) (psub sub (gen n k)))"

text \<open>
  Modelled from the spec: \<open>section\<close> is a method of the base class
  \<open>BasicSemialgebraicSet_base\<close>, which is not in the source file. Section 4.2, step 3:
  "Construct and return the new Constraint Store over the ring with v removed". With
  \<open>bsa_class='linear_system'\<close> the result is a new store over \<open>new_poly_ring\<close> that holds
  \<open>p(polynomial_map)\<close> for every polynomial \<open>p\<close> of the store, in the set of the same kind.
  An entry of \<open>polynomial_map\<close> is a generator of the new ring (\<open>Some j\<close>) or zero
  (\<open>None\<close>); the map has one entry for each generator of the ring of \<open>p\<close>.
\<close>

definition compose_coefficient :: "'a::comm_monoid_add list \<Rightarrow> nat option list \<Rightarrow> nat \<Rightarrow> 'a" where
  "compose_coefficient cs pm j = sum_list (map fst (filter (\<lambda>cm. snd cm = Some j) (zip cs pm)))"

definition compose_poly :: "nat option list \<Rightarrow> nat \<Rightarrow> 'a::comm_monoid_add linpoly \<Rightarrow> 'a linpoly" where
  "compose_poly pm m p =
     LinPoly (constant_coefficient p) (map (compose_coefficient (coeffs p) pm) [0..<m])"

definition section_of ::
  "('v, 'a::comm_monoid_add) bsa \<Rightarrow> nat option list \<Rightarrow> 'v list \<Rightarrow> error + ('v, 'a) bsa" where
  "section_of b polynomial_map new_poly_ring =
     (if length polynomial_map \<noteq> length (poly_ring b) then Inl ValueError_section_map
      else
        let f = compose_poly polynomial_map (length new_poly_ring) in
        Inr \<lparr>poly_ring = new_poly_ring,
             ambient_dim = length new_poly_ring,
             eq_poly = PySet (remdups (map f (members (eq_poly b)))),
             lt_poly = PySet (remdups (map f (members (lt_poly b)))),
             le_poly = PySet (remdups (map f (members (le_poly b))))\<rparr>)"

text \<open>The new lists \<open>(new_eq, new_lt, new_le)\<close> of the two branches.\<close>

definition fourier_motzkin ::
  "nat \<Rightarrow> 'a::linordered_field linpoly list \<Rightarrow> 'a linpoly list \<Rightarrow> 'a linpoly list
   \<Rightarrow> 'a linpoly list \<times> 'a linpoly list \<times> 'a linpoly list"
where
  "fourier_motzkin k eqs lts les =
     (let lt_upper = filter (\<lambda>p. monomial_coefficient p k > 0) lts;
          lt_lower = filter (\<lambda>p. \<not> monomial_coefficient p k > 0 \<and> monomial_coefficient p k < 0) lts;
          lt_keep = filter (\<lambda>p. \<not> monomial_coefficient p k > 0 \<and> \<not> monomial_coefficient p k < 0) lts;
          le_upper = filter (\<lambda>p. monomial_coefficient p k > 0) les;
          le_lower = filter (\<lambda>p. \<not> monomial_coefficient p k > 0 \<and> monomial_coefficient p k < 0) les;
          le_keep = filter (\<lambda>p. \<not> monomial_coefficient p k > 0 \<and> \<not> monomial_coefficient p k < 0) les
      in (eqs,
          lt_keep @ [combine k l u. l \<leftarrow> le_lower, u \<leftarrow> lt_upper]
                  @ [combine k l u. l \<leftarrow> lt_lower, u \<leftarrow> le_upper]
                  @ [combine k l u. l \<leftarrow> lt_lower, u \<leftarrow> lt_upper],
          le_keep @ [combine k l u. l \<leftarrow> le_lower, u \<leftarrow> le_upper]))"

definition substitution ::
  "nat \<Rightarrow> nat \<Rightarrow> 'a::linordered_field linpoly \<Rightarrow> 'a linpoly list \<Rightarrow> 'a linpoly list
   \<Rightarrow> 'a linpoly list \<Rightarrow> 'a linpoly list \<times> 'a linpoly list \<times> 'a linpoly list"
where
  "substitution n k e eqs lts les =
     (let sub = psub (gen n k) (sdiv e (monomial_coefficient e k))
      in (map (substitute n k sub) eqs, map (substitute n k sub) lts, map (substitute n k sub) les))"

text \<open>
  The search for an equality with a non-zero coefficient on the coordinate (the first one in
  the order of iteration), and the branch it selects.
\<close>

definition new_lists ::
  "nat \<Rightarrow> nat \<Rightarrow> 'a::linordered_field linpoly list \<Rightarrow> 'a linpoly list
   \<Rightarrow> 'a linpoly list \<Rightarrow> 'a linpoly list \<times> 'a linpoly list \<times> 'a linpoly list"
where
  "new_lists n k eqs lts les =
     (case find (\<lambda>e. monomial_coefficient e k \<noteq> 0) eqs of
        None \<Rightarrow> fourier_motzkin k eqs lts les
      | Some e \<Rightarrow> substitution n k e eqs lts les)"

definition one_step_elimination ::
  "('v, 'a::linordered_field) bsa \<Rightarrow> int \<Rightarrow> error + ('v, 'a) bsa" where
  "one_step_elimination self coordinate_index =
     (let R = poly_ring self; n = length R in
      if coordinate_index \<ge> int n then Inl ValueError_no_elimination_variable
      else
        (case tuple_index n coordinate_index of
           None \<Rightarrow> Inl IndexError
         | Some k \<Rightarrow>
             let variables_names = map (\<lambda>i. R ! i) (filter (\<lambda>i. int i \<noteq> coordinate_index) [0..<n]);
                 polynomial_map =
                   list_insert coordinate_index None (map Some [0..<length variables_names]);
                 new = new_lists n k (members (eq_poly self)) (members (lt_poly self))
                         (members (le_poly self))
             in (case init (Some (ambient_dim self)) (Some R)
                        (map (in_ring R) (fst new))
                        (map (in_ring R) (fst (snd new)))
                        (map (in_ring R) (snd (snd new))) of
                   Inl err \<Rightarrow> Inl err
                 | Inr b \<Rightarrow> section_of b polynomial_map variables_names)))"

subsection \<open>Eliminating several variables\<close>

fun gens_index :: "'v list \<Rightarrow> 'v \<Rightarrow> nat" where
  "gens_index [] c = 0"
| "gens_index (x # xs) c = (if x = c then 0 else Suc (gens_index xs c))"

text \<open>
  The loop over \<open>elimination_positions\<close>: eliminate the first position, then lower by one
  every later position that is greater.
\<close>

fun eliminate_positions ::
  "('v, 'a::linordered_field) bsa \<Rightarrow> int list \<Rightarrow> error + ('v, 'a) bsa" where
  "eliminate_positions res [] = Inr res"
| "eliminate_positions res (coordinate_index # rest) =
     (case one_step_elimination res coordinate_index of
        Inl err \<Rightarrow> Inl err
      | Inr res' \<Rightarrow>
          eliminate_positions res'
            (map (\<lambda>p. if p > coordinate_index then p - 1 else p) rest))"

definition coordinate_projection ::
  "('v, 'a::linordered_field) bsa \<Rightarrow> 'v list \<Rightarrow> error + ('v, 'a) bsa" where
  "coordinate_projection self coordinates =
     (if list_ex (\<lambda>c. c \<notin> set (poly_ring self)) coordinates
      then Inl ValueError_coordinate_not_found
      else eliminate_positions self (map (\<lambda>c. int (gens_index (poly_ring self) c)) coordinates))"

text \<open>
  The sequential composition that the specification compares the driver with: eliminate each
  named variable in the order given, every time at the position that its name has in the
  ring of the store reached so far.
\<close>

fun sequential_elimination ::
  "('v, 'a::linordered_field) bsa \<Rightarrow> 'v list \<Rightarrow> error + ('v, 'a) bsa" where
  "sequential_elimination s [] = Inr s"
| "sequential_elimination s (c # cs) =
     (case one_step_elimination s (int (gens_index (poly_ring s) c)) of
        Inl err \<Rightarrow> Inl err
      | Inr r \<Rightarrow> sequential_elimination r cs)"

subsection \<open>The region of a store\<close>

text \<open>
  An assignment gives a value to every variable name; a polynomial of a ring reads the values
  of the ring's generators.
\<close>

definition eval_poly :: "'v list \<Rightarrow> 'a::linordered_field linpoly \<Rightarrow> ('v \<Rightarrow> 'a) \<Rightarrow> 'a" where
  "eval_poly R p \<rho> = constant_coefficient p + sum_list (map2 (\<lambda>a x. a * \<rho> x) (coeffs p) R)"

definition satisfies :: "('v, 'a::linordered_field) bsa \<Rightarrow> ('v \<Rightarrow> 'a) \<Rightarrow> bool" where
  "satisfies s \<rho> =
     (list_all (\<lambda>p. eval_poly (poly_ring s) p \<rho> = 0) (members (eq_poly s)) \<and>
      list_all (\<lambda>p. eval_poly (poly_ring s) p \<rho> < 0) (members (lt_poly s)) \<and>
      list_all (\<lambda>p. eval_poly (poly_ring s) p \<rho> \<le> 0) (members (le_poly s)))"

text \<open>
  The polynomials of a store belong to its ring, whose generators have different names.
\<close>

definition well_formed :: "('v, 'a) bsa \<Rightarrow> bool" where
  "well_formed s =
     (distinct (poly_ring s) \<and>
      list_all (\<lambda>p. length (coeffs p) = length (poly_ring s))
        (members (eq_poly s) @ members (lt_poly s) @ members (le_poly s)))"

text \<open>
  A polynomial without its coefficient on the generator \<open>k\<close>: the same polynomial, read in
  the ring without that generator, when the coefficient is zero.
\<close>

definition drop_coordinate :: "nat \<Rightarrow> 'a linpoly \<Rightarrow> 'a linpoly" where
  "drop_coordinate k p =
     LinPoly (constant_coefficient p) (take k (coeffs p) @ drop (Suc k) (coeffs p))"

text \<open>A polynomial handed in has one coefficient for each generator of its parent.\<close>

fun well_formed_element :: "('v, 'a) element \<Rightarrow> bool" where
  "well_formed_element (Scalar c) = True"
| "well_formed_element (Poly R p hs) = (length (coeffs p) = length R)"

text \<open>The mark of the collapsed state: the inequality \<open>1 \<le> 0\<close> is in the store.\<close>

definition infeasible :: "('v, 'a::{zero,one}) bsa \<Rightarrow> bool" where
  "infeasible s = (one_poly (length (poly_ring s)) \<in> set (members (le_poly s)))"

text \<open>
  A sequence of calls on a store: \<open>add_polynomial_constraint\<close> and \<open>add_linear_constraint\<close>
  change the store in place, \<open>one_step_elimination\<close> returns the store that the following
  calls are made on; a call that raises leaves the store as it was.
\<close>

datatype ('v, 'a) call =
    Add_polynomial_constraint "('v, 'a) element" operator
  | Add_linear_constraint "'a list" 'a operator
  | One_step_elimination int

fun call_result ::
  "('v, 'a::linordered_field) bsa \<Rightarrow> ('v, 'a) call \<Rightarrow> error + ('v, 'a) bsa" where
  "call_result s (Add_polynomial_constraint lhs op) = add_polynomial_constraint s lhs op"
| "call_result s (Add_linear_constraint lhs_vector cst op) = add_linear_constraint s lhs_vector cst op"
| "call_result s (One_step_elimination coordinate_index) = one_step_elimination s coordinate_index"

fun after_calls ::
  "('v, 'a::linordered_field) bsa \<Rightarrow> ('v, 'a) call list \<Rightarrow> ('v, 'a) bsa" where
  "after_calls s [] = s"
| "after_calls s (c # cs) =
     (case call_result s c of Inl err \<Rightarrow> after_calls s cs | Inr s' \<Rightarrow> after_calls s' cs)"

fun well_formed_call :: "('v, 'a) call \<Rightarrow> bool" where
  "well_formed_call (Add_polynomial_constraint lhs op) = well_formed_element lhs"
| "well_formed_call (Add_linear_constraint lhs_vector cst op) = True"
| "well_formed_call (One_step_elimination coordinate_index) = True"

subsection \<open>Example inputs\<close>

definition example_store :: "(string, rat) bsa" where
  "example_store =
     \<lparr>poly_ring = [''x'', ''y''], ambient_dim = 2,
      eq_poly = PySet [],
      lt_poly = PySet [LinPoly 3 [1, - 2]],
      le_poly = PySet [LinPoly 3 [- 1, - 2], LinPoly 3 [2, 5]]\<rparr>"

definition square_x :: "(string, rat) element" where
  "square_x = Poly [''x'', ''y''] (LinPoly 0 [0, 0]) [((0, 0, []), 1)]"

definition pinned_store :: "(string, rat) bsa" where
  "pinned_store =
     \<lparr>poly_ring = [''x'', ''y''], ambient_dim = 2,
      eq_poly = PySet [LinPoly 3 [1, 2]],
      lt_poly = PySet [LinPoly 3 [1, - 2]],
      le_poly = PySet []\<rparr>"


definition feasible_store :: "(string, rat) bsa" where
  "feasible_store =
     \<lparr>poly_ring = [''x'', ''y''], ambient_dim = 2,
      eq_poly = PySet [],
      lt_poly = PySet [],
      le_poly = PySet [LinPoly 0 [1, 1], LinPoly 0 [- 1, 0]]\<rparr>"

section \<open>Properties of the constructor\<close>

lemma foldr_max_le: "foldr max xs (b::int) \<le> c \<longleftrightarrow> b \<le> c \<and> (\<forall>x\<in>set xs. x \<le> c)"
  by (induction xs) auto

lemma degree_in_ring: "degree (in_ring R p) \<le> 1"
  by (auto simp: degree_def in_ring_def foldr_max_le)


lemma parent_in_ring: "parent (in_ring R p) = PolynomialRing R"
  by (simp add: in_ring_def)

lemma common_parent_same:
  "es \<noteq> [] \<Longrightarrow> \<forall>e\<in>set es. parent e = PolynomialRing R \<Longrightarrow>
   common_parent es = Some (PolynomialRing R)"
  by (induction es rule: common_parent.induct) auto

lemma check_constants_in_ring:
  "\<forall>e\<in>set es. parent e = PolynomialRing R \<Longrightarrow> check_constants r R es t = Inr t"
  by (induction es arbitrary: t) auto

lemma set_py_set_subset: "set (py_set n xs) \<subseteq> set xs"
  by (induction xs) auto

lemma image_py_set: "to_poly_ring n ` set (py_set n xs) = to_poly_ring n ` set xs"
proof (induction xs)
  case Nil
  then show ?case by simp
next
  case (Cons x xs)
  have "to_poly_ring n ` set (py_set n (x # xs)) =
        insert (to_poly_ring n x)
          (to_poly_ring n ` {y \<in> set (py_set n xs). to_poly_ring n y \<noteq> to_poly_ring n x})"
    by (auto simp: py_eq_def)
  also have "\<dots> = insert (to_poly_ring n x) (to_poly_ring n ` set (py_set n xs))"
    by auto
  finally show ?case using Cons by simp
qed

lemma set_remove_error: "set_remove n e c = Inl err \<Longrightarrow> err = AttributeError \<or> err = KeyError"
  by (cases c) (auto split: if_splits)

lemma check_constants_error:
  "check_constants r R es t = Inl err \<Longrightarrow> err = AttributeError \<or> err = KeyError"
  by (induction es arbitrary: t) (auto split: if_splits sum.splits dest: set_remove_error)

lemma init_error:
  "init amb pr eq lt le = Inl err \<Longrightarrow>
     err \<in> {ValueError_must_specify_poly_ring, ValueError_not_linear,
            ValueError_not_proper_poly_ring, AttributeError, KeyError}"
  by (auto simp: init_def Let_def split: option.splits if_splits sum.splits
           dest: check_constants_error)

text \<open>
  C10. With a violated constant equality and a satisfied constant strict inequality, both
  given as base ring elements, next to one polynomial of the ring among the non-strict
  inequalities (for instance \<open>eq=[5]\<close>, \<open>lt=[-1]\<close>), the constructor neither returns the
  collapsed store nor raises one of its own errors: the collapse has replaced \<open>temp_lt\<close> by
  an empty dict, \<open>temp_lt.remove\<close> does not exist and the constructor raises AttributeError.
\<close>

theorem init_attribute_error:
  "init amb (Some R) [Scalar 5] [Scalar (- 1)] [in_ring R p] = Inl AttributeError"
  using degree_in_ring[of R p]
  by (simp add: init_def Let_def degree_def in_ring_def collapsed_def)

lemma to_poly_ring_in_ring: "to_poly_ring n (in_ring R p) = p"
  by (simp add: in_ring_def)

lemma init_in_ring:
  "init amb (Some R) (map (in_ring R) a) (map (in_ring R) b) (map (in_ring R) c) =
     Inr \<lparr>poly_ring = R,
          ambient_dim = (case amb of None \<Rightarrow> length R | Some d \<Rightarrow> d),
          eq_poly = PySet (map (to_poly_ring (length R)) (py_set (length R) (map (in_ring R) a))),
          lt_poly = PySet (map (to_poly_ring (length R)) (py_set (length R) (map (in_ring R) b))),
          le_poly = PySet (map (to_poly_ring (length R)) (py_set (length R) (map (in_ring R) c)))\<rparr>"
proof -
  let ?polys = "map (in_ring R) a @ map (in_ring R) b @ map (in_ring R) c"
  have par: "\<forall>e\<in>set ?polys. parent e = PolynomialRing R"
    by (auto simp: parent_in_ring)
  have deg: "\<not> list_ex (\<lambda>e. degree e > 1) ?polys"
    by (auto simp: list_ex_iff not_less degree_in_ring)
  have cp: "?polys \<noteq> [] \<Longrightarrow> common_parent ?polys = Some (PolynomialRing R)"
    using common_parent_same[OF _ par] by blast
  have cc: "\<And>r xs t. check_constants r R (py_set (length R) (map (in_ring R) xs)) t = Inr t"
    by (rule check_constants_in_ring) (use set_py_set_subset in \<open>fastforce simp: parent_in_ring\<close>)
  show ?thesis
    unfolding init_def using deg cp by (auto simp: cc Let_def)
qed

lemma set_dedup_in_ring:
  "set (map (to_poly_ring n) (py_set n (map (in_ring R) a))) = set a"
proof -
  have "set (map (to_poly_ring n) (py_set n (map (in_ring R) a))) =
        to_poly_ring n ` set (map (in_ring R) a)"
    using image_py_set[of n "map (in_ring R) a"] by simp
  also have "\<dots> = set a"
    by (auto simp: to_poly_ring_in_ring image_iff)
  finally show ?thesis .
qed

lemma filter_neq_upt:
  "k < n \<Longrightarrow> filter (\<lambda>j. j \<noteq> k) [0..<n] = [0..<k] @ [Suc k..<n]"
proof -
  assume k: "k < n"
  have "[0..<n] = [0..<k] @ k # [Suc k..<n]"
    using k by (metis le_add1 less_imp_le_nat upt_add_eq_append upt_conv_Cons plus_nat.add_0 le_add_diff_inverse)
  moreover have "filter (\<lambda>j. j \<noteq> k) [0..<k] = [0..<k]" by (simp add: filter_id_conv)
  moreover have "filter (\<lambda>j. j \<noteq> k) [Suc k..<n] = [Suc k..<n]" by (simp add: filter_id_conv)
  ultimately show ?thesis by simp
qed

lemma variables_names_in_range:
  assumes "0 \<le> i" "i < int (length R)"
  shows "map (\<lambda>j. R ! j) (filter (\<lambda>j. int j \<noteq> i) [0..<length R]) = take (nat i) R @ drop (Suc (nat i)) R"
proof -
  have k: "nat i < length R" using assms by linarith
  have "(\<lambda>j. int j \<noteq> i) = (\<lambda>j. j \<noteq> nat i)" using assms by (auto simp: fun_eq_iff)
  then have "filter (\<lambda>j. int j \<noteq> i) [0..<length R] = [0..<nat i] @ [Suc (nat i)..<length R]"
    using filter_neq_upt[OF k] by simp
  moreover have "map (\<lambda>j. R ! j) [0..<nat i] = take (nat i) R"
    using k by (intro nth_equalityI) auto
  moreover have "map (\<lambda>j. R ! j) [Suc (nat i)..<length R] = drop (Suc (nat i)) R"
    using k by (intro nth_equalityI) auto
  ultimately show ?thesis by simp
qed

lemma variables_names_negative:
  assumes "i < 0"
  shows "filter (\<lambda>j. int j \<noteq> i) [0..<n] = [0..<n]"
  using assms by (auto simp: filter_id_conv)

lemma length_list_insert: "length (list_insert i x xs) = Suc (length xs)"
  by (simp add: list_insert_def Let_def)

lemma list_insert_in_range:
  "0 \<le> i \<Longrightarrow> i \<le> int (length xs) \<Longrightarrow> list_insert i x xs = take (nat i) xs @ x # drop (nat i) xs"
  by (simp add: list_insert_def Let_def min_def)

lemma filter_zip_Some_upt:
  "length xs = b - a \<Longrightarrow>
   map fst (filter (\<lambda>cm. snd cm = Some j) (zip xs (map Some [a..<b]))) =
     (if a \<le> j \<and> j < b then [xs ! (j - a)] else [])"
proof (induction xs arbitrary: a)
  case Nil
  then show ?case by simp
next
  case (Cons x xs)
  then have ab: "a < b" and len: "length xs = b - Suc a" by auto
  have upt: "[a..<b] = a # [Suc a..<b]" using ab by (simp add: upt_conv_Cons)
  show ?case
  proof (cases "j = a")
    case True
    then show ?thesis using ab upt Cons.IH[OF len] by simp
  next
    case False
    then show ?thesis using ab upt Cons.IH[OF len] by (auto simp: Suc_diff_Suc less_Suc_eq_le)
  qed
qed

lemma compose_coefficient_insert:
  assumes k: "k < n" and len: "length cs = n" and j: "j < n - 1"
  shows "compose_coefficient cs (map Some [0..<k] @ None # map Some [k..<n - 1]) j =
         (take k cs @ drop (Suc k) cs) ! j"
proof -
  let ?pm = "map Some [0..<k] @ None # map Some [k..<n - 1]"
  have cs: "cs = take k cs @ cs ! k # drop (Suc k) cs"
    using k len by (simp add: id_take_nth_drop)
  have z: "zip cs ?pm = zip (take k cs) (map Some [0..<k])
             @ (cs ! k, None) # zip (drop (Suc k) cs) (map Some [k..<n - 1])"
    using k len by (subst cs) (simp add: zip_append)
  have a: "map fst (filter (\<lambda>cm. snd cm = Some j) (zip (take k cs) (map Some [0..<k]))) =
           (if j < k then [take k cs ! j] else [])"
    using filter_zip_Some_upt[of "take k cs" k 0 j] k len by simp
  have b: "map fst (filter (\<lambda>cm. snd cm = Some j) (zip (drop (Suc k) cs) (map Some [k..<n - 1]))) =
           (if k \<le> j then [drop (Suc k) cs ! (j - k)] else [])"
    using filter_zip_Some_upt[of "drop (Suc k) cs" "n - 1" k j] k len j by simp
  show ?thesis
    unfolding compose_coefficient_def z using a b k len j
    by (auto simp: nth_append)
qed

lemma compose_poly_insert:
  assumes k: "k < n" and len: "length (coeffs p) = n"
  shows "compose_poly (map Some [0..<k] @ None # map Some [k..<n - 1]) (n - 1) p = drop_coordinate k p"
proof -
  have "map (compose_coefficient (coeffs p) (map Some [0..<k] @ None # map Some [k..<n - 1])) [0..<n - 1]
        = take k (coeffs p) @ drop (Suc k) (coeffs p)"
  proof (rule nth_equalityI)
    show "length (map (compose_coefficient (coeffs p) (map Some [0..<k] @ None # map Some [k..<n - 1])) [0..<n - 1])
          = length (take k (coeffs p) @ drop (Suc k) (coeffs p))"
      using k len by auto
  next
    fix j
    assume "j < length (map (compose_coefficient (coeffs p) (map Some [0..<k] @ None # map Some [k..<n - 1])) [0..<n - 1])"
    then have j: "j < n - 1" by simp
    then show "map (compose_coefficient (coeffs p) (map Some [0..<k] @ None # map Some [k..<n - 1])) [0..<n - 1] ! j
               = (take k (coeffs p) @ drop (Suc k) (coeffs p)) ! j"
      using compose_coefficient_insert[OF k len j] by simp
  qed
  then show ?thesis by (simp add: compose_poly_def drop_coordinate_def)
qed

lemma polynomial_map_in_range:
  assumes "0 \<le> i" "i < int n"
  shows "list_insert i None (map Some [0..<n - 1]) = map Some [0..<nat i] @ None # map Some [nat i..<n - 1]"
proof -
  have k: "nat i \<le> n - 1" using assms by linarith
  have "list_insert i None (map Some [0..<n - 1]) =
        take (nat i) (map Some [0..<n - 1]) @ None # drop (nat i) (map Some [0..<n - 1])"
    using assms by (intro list_insert_in_range) auto
  then show ?thesis using k by (simp add: take_map drop_map take_upt drop_upt)
qed

lemma tuple_index_in_range: "0 \<le> i \<Longrightarrow> i < int n \<Longrightarrow> tuple_index n i = Some (nat i)"
  by (simp add: tuple_index_def)

lemma image_dedup_in_ring:
  "(\<lambda>x. f (to_poly_ring n x)) ` set (py_set n (map (in_ring R) a)) = f ` set a"
proof -
  have "to_poly_ring n ` set (py_set n (map (in_ring R) a)) = set a"
    using set_dedup_in_ring[of n R a] by simp
  then have "f ` (to_poly_ring n ` set (py_set n (map (in_ring R) a))) = f ` set a" by simp
  then show ?thesis by (simp add: image_image)
qed

lemma one_step_elimination_in_range:
  assumes i: "0 \<le> i" "i < int (length (poly_ring s))"
  shows "\<exists>r. one_step_elimination s i = Inr r \<and>
     poly_ring r = take (nat i) (poly_ring s) @ drop (Suc (nat i)) (poly_ring s) \<and>
     ambient_dim r = length (poly_ring s) - 1 \<and>
     (\<exists>xs. eq_poly r = PySet xs) \<and> (\<exists>xs. lt_poly r = PySet xs) \<and> (\<exists>xs. le_poly r = PySet xs) \<and>
     set (members (eq_poly r)) =
       compose_poly (map Some [0..<nat i] @ None # map Some [nat i..<length (poly_ring s) - 1])
         (length (poly_ring s) - 1) `
       set (fst (new_lists (length (poly_ring s)) (nat i) (members (eq_poly s))
                  (members (lt_poly s)) (members (le_poly s)))) \<and>
     set (members (lt_poly r)) =
       compose_poly (map Some [0..<nat i] @ None # map Some [nat i..<length (poly_ring s) - 1])
         (length (poly_ring s) - 1) `
       set (fst (snd (new_lists (length (poly_ring s)) (nat i) (members (eq_poly s))
                  (members (lt_poly s)) (members (le_poly s))))) \<and>
     set (members (le_poly r)) =
       compose_poly (map Some [0..<nat i] @ None # map Some [nat i..<length (poly_ring s) - 1])
         (length (poly_ring s) - 1) `
       set (snd (snd (new_lists (length (poly_ring s)) (nat i) (members (eq_poly s))
                  (members (lt_poly s)) (members (le_poly s)))))"
proof -
  let ?R = "poly_ring s"
  let ?n = "length ?R"
  let ?k = "nat i"
  have k: "?k < ?n" using i by linarith
  have names: "map (\<lambda>j. ?R ! j) (filter (\<lambda>j. int j \<noteq> i) [0..<?n]) = take ?k ?R @ drop (Suc ?k) ?R"
    using variables_names_in_range[OF i] .
  have len: "length (take ?k ?R @ drop (Suc ?k) ?R) = ?n - 1" using k by auto
  have pm: "list_insert i None (map Some [0..<?n - 1]) =
            map Some [0..<?k] @ None # map Some [?k..<?n - 1]"
    using polynomial_map_in_range[OF i] .
  have lpm: "length (map Some [0..<?k] @ None # map Some [?k..<?n - 1]) = ?n" using k by auto
  note img = image_dedup_in_ring
  let ?new = "new_lists ?n ?k (members (eq_poly s)) (members (lt_poly s)) (members (le_poly s))"
  let ?B = "\<lparr>poly_ring = ?R, ambient_dim = ambient_dim s,
           eq_poly = PySet (map (to_poly_ring ?n) (py_set ?n (map (in_ring ?R) (fst ?new)))),
           lt_poly = PySet (map (to_poly_ring ?n) (py_set ?n (map (in_ring ?R) (fst (snd ?new))))),
           le_poly = PySet (map (to_poly_ring ?n) (py_set ?n (map (in_ring ?R) (snd (snd ?new)))))\<rparr>"
  let ?pm = "map Some [0..<?k] @ None # map Some [?k..<?n - 1]"
  let ?names = "take ?k ?R @ drop (Suc ?k) ?R"
  let ?f = "compose_poly ?pm (?n - 1)"
  have step: "one_step_elimination s i = section_of ?B ?pm ?names"
    unfolding one_step_elimination_def Let_def
    using i
    by (simp only: tuple_index_in_range[OF i] names len pm init_in_ring option.case sum.case
        not_le[symmetric] if_False)
  have "length ?pm = length (poly_ring ?B)" using lpm by simp
  then have sec: "section_of ?B ?pm ?names =
      Inr \<lparr>poly_ring = ?names, ambient_dim = length ?names,
           eq_poly = PySet (remdups (map (compose_poly ?pm (length ?names)) (members (eq_poly ?B)))),
           lt_poly = PySet (remdups (map (compose_poly ?pm (length ?names)) (members (lt_poly ?B)))),
           le_poly = PySet (remdups (map (compose_poly ?pm (length ?names)) (members (le_poly ?B))))\<rparr>"
    unfolding section_of_def Let_def by (simp only: if_False simp_thms)
  show ?thesis
    unfolding step sec len
    by (simp add: img del: One_nat_def)
qed







lemma set_add_error: "set_add e c = Inl err \<Longrightarrow> err = AttributeError"
  by (cases c) auto

text \<open>
  C7. With a ring given, the constructor raises the error of the degree check exactly when
  one of the polynomials in \<open>eq\<close>, \<open>lt\<close>, \<open>le\<close> has degree two or more, and then it builds
  no store whatever the other arguments are. For a polynomial of the store's ring (or a base
  ring element) \<open>add_polynomial_constraint\<close> raises the error of the degree check exactly
  when the degree is two or more, and a polynomial of degree two or more is never added.
\<close>

theorem degree_rejection:
  "((init amb (Some R) eq lt le = Inl ValueError_not_linear)
      = list_ex (\<lambda>e. 1 < degree e) (eq @ lt @ le)) \<and>
   (list_ex (\<lambda>e. 1 < degree e) (eq @ lt @ le) \<longrightarrow> (\<exists>err. init amb pr eq lt le = Inl err)) \<and>
   (parent lhs = PolynomialRing (poly_ring s) \<or> parent lhs = BaseRing \<longrightarrow>
      (add_polynomial_constraint s lhs op = Inl ValueError_not_linear) = (1 < degree lhs)) \<and>
   (1 < degree lhs \<longrightarrow> (\<exists>err. add_polynomial_constraint s lhs op = Inl err))"
proof (intro conjI impI)
  show "(init amb (Some R) eq lt le = Inl ValueError_not_linear)
      = list_ex (\<lambda>e. 1 < degree e) (eq @ lt @ le)"
    by (auto simp: init_def Let_def split: sum.splits dest: check_constants_error)
  show "\<exists>err. init amb pr eq lt le = Inl err" if "list_ex (\<lambda>e. 1 < degree e) (eq @ lt @ le)"
    using that by (cases pr) (auto simp: init_def Let_def)
  show "(add_polynomial_constraint s lhs op = Inl ValueError_not_linear) = (1 < degree lhs)"
    if "parent lhs = PolynomialRing (poly_ring s) \<or> parent lhs = BaseRing"
    using that
    by (cases op) (auto simp: add_polynomial_constraint_def Let_def split: sum.splits
        dest: set_add_error)
  show "\<exists>err. add_polynomial_constraint s lhs op = Inl err" if "1 < degree lhs"
    using that by (auto simp: add_polynomial_constraint_def Let_def)
qed

lemma degree_square_x: "degree square_x = 2"
  by (simp add: square_x_def degree_def)

theorem degree_rejection_witness:
  "init None (Some [''x'', ''y'']) [] [square_x] [] = Inl ValueError_not_linear \<and>
   (\<exists>err. init None None [] [square_x] [] = Inl err) \<and>
   add_polynomial_constraint example_store square_x Op_le = Inl ValueError_not_linear \<and>
   add_polynomial_constraint example_store (Scalar 1) Op_le \<noteq> Inl ValueError_not_linear"
  using degree_rejection[of None "[''x'', ''y'']" "[]" "[square_x]" "[]" None square_x example_store Op_le]
    degree_rejection[of None "[''x'', ''y'']" "[]" "[square_x]" "[]" None "Scalar 1" example_store Op_le]
  by (simp add: degree_square_x example_store_def square_x_def degree_def)

lemma temp_of_update_same: "temp_of r (temp_update r c t) = c"
  by (cases r; cases t) auto

lemma temp_of_update_other: "r \<noteq> r' \<Longrightarrow> temp_of r (temp_update r' c t) = temp_of r t"
  by (cases r; cases r'; cases t) auto






lemma set_add_PySet: "set_add e (PySet xs) = Inr (PySet (if e \<in> set xs then xs else xs @ [e]))"
  by simp





section \<open>Polynomial arithmetic and evaluation\<close>

lemma coeffs_simps:
  "coeffs (smult c p) = map (\<lambda>a. c * a) (coeffs p)"
  "coeffs (padd p q) = map2 (+) (coeffs p) (coeffs q)"
  "coeffs (psub p q) = map2 (-) (coeffs p) (coeffs q)"
  "coeffs (sdiv p c) = map (\<lambda>a. a / c) (coeffs p)"
  "coeffs (gen n k) = (replicate n 0)[k := 1]"
  "constant_coefficient (smult c p) = c * constant_coefficient p"
  "constant_coefficient (padd p q) = constant_coefficient p + constant_coefficient q"
  "constant_coefficient (psub p q) = constant_coefficient p - constant_coefficient q"
  "constant_coefficient (sdiv p c) = constant_coefficient p / c"
  "constant_coefficient (gen n k) = 0"
  by (simp_all add: smult_def padd_def psub_def sdiv_def gen_def)

lemma sum_zip_add:
  fixes as bs :: "'a::linordered_field list"
  shows "length as = length bs \<Longrightarrow>
   sum_list (map2 (\<lambda>a x. a * \<rho> x) (map2 (+) as bs) R) =
   sum_list (map2 (\<lambda>a x. a * \<rho> x) as R) + sum_list (map2 (\<lambda>a x. a * \<rho> x) bs R)"
proof (induction as bs arbitrary: R rule: list_induct2)
  case Nil
  then show ?case by simp
next
  case (Cons a as b bs)
  then show ?case by (cases R) (simp_all add: algebra_simps)
qed

lemma sum_zip_diff:
  fixes as bs :: "'a::linordered_field list"
  shows "length as = length bs \<Longrightarrow>
   sum_list (map2 (\<lambda>a x. a * \<rho> x) (map2 (-) as bs) R) =
   sum_list (map2 (\<lambda>a x. a * \<rho> x) as R) - sum_list (map2 (\<lambda>a x. a * \<rho> x) bs R)"
proof (induction as bs arbitrary: R rule: list_induct2)
  case Nil
  then show ?case by simp
next
  case (Cons a as b bs)
  then show ?case by (cases R) (simp_all add: algebra_simps)
qed

lemma sum_zip_scale:
  fixes as :: "'a::linordered_field list"
  shows "sum_list (map2 (\<lambda>a x. a * \<rho> x) (map (\<lambda>a. c * a) as) R) =
   c * sum_list (map2 (\<lambda>a x. a * \<rho> x) as R)"
proof (induction as arbitrary: R)
  case Nil
  then show ?case by simp
next
  case (Cons a as)
  then show ?case by (cases R) (simp_all add: algebra_simps)
qed

lemma sum_zip_divide:
  fixes as :: "'a::linordered_field list"
  shows "sum_list (map2 (\<lambda>a x. a * \<rho> x) (map (\<lambda>a. a / c) as) R) =
   sum_list (map2 (\<lambda>a x. a * \<rho> x) as R) / c"
proof (induction as arbitrary: R)
  case Nil
  then show ?case by simp
next
  case (Cons a as)
  then show ?case by (cases R) (simp_all add: field_simps add_divide_distrib)
qed

lemma sum_zip_zero:
  fixes \<rho> :: "'v \<Rightarrow> 'a::linordered_field"
  shows "sum_list (map2 (\<lambda>a x. a * \<rho> x) (replicate n 0) R) = 0"
proof (induction n arbitrary: R)
  case 0
  then show ?case by simp
next
  case (Suc n)
  then show ?case by (cases R) simp_all
qed

lemma sum_zip_unit:
  fixes \<rho> :: "'v \<Rightarrow> 'a::linordered_field"
  shows "k < length R \<Longrightarrow> k < n \<Longrightarrow>
    sum_list (map2 (\<lambda>a x. a * \<rho> x) ((replicate n 0)[k := 1]) R) = \<rho> (R ! k)"
proof (induction n arbitrary: R k)
  case 0
  then show ?case by simp
next
  case (Suc n)
  then obtain x xs where R: "R = x # xs" by (cases R) auto
  show ?case
  proof (cases k)
    case 0
    then show ?thesis using R by (simp add: sum_zip_zero)
  next
    case (Suc k')
    then show ?thesis using R Suc.prems Suc.IH[of k' xs] by simp
  qed
qed

lemma eval_padd:
  "length (coeffs p) = length (coeffs q) \<Longrightarrow>
   eval_poly R (padd p q) \<rho> = eval_poly R p \<rho> + eval_poly R q \<rho>"
  by (simp add: eval_poly_def coeffs_simps sum_zip_add)

lemma eval_psub:
  "length (coeffs p) = length (coeffs q) \<Longrightarrow>
   eval_poly R (psub p q) \<rho> = eval_poly R p \<rho> - eval_poly R q \<rho>"
  by (simp add: eval_poly_def coeffs_simps sum_zip_diff)

lemma eval_smult: "eval_poly R (smult c p) \<rho> = c * eval_poly R p \<rho>"
  by (simp add: eval_poly_def coeffs_simps sum_zip_scale distrib_left)

lemma eval_sdiv: "eval_poly R (sdiv p c) \<rho> = eval_poly R p \<rho> / c"
  by (simp add: eval_poly_def coeffs_simps sum_zip_divide add_divide_distrib)

lemma eval_gen: "k < length R \<Longrightarrow> eval_poly R (gen (length R) k) \<rho> = \<rho> (R ! k)"
  by (simp add: eval_poly_def coeffs_simps sum_zip_unit)

lemma eval_one_poly: "eval_poly R (one_poly n) \<rho> = 1"
  by (simp add: eval_poly_def one_poly_def sum_zip_zero)

lemma eval_cong:
  "(\<And>x. x \<in> set R \<Longrightarrow> \<rho> x = \<rho>' x) \<Longrightarrow> eval_poly R p \<rho> = eval_poly R p \<rho>'"
proof -
  assume a: "\<And>x. x \<in> set R \<Longrightarrow> \<rho> x = \<rho>' x"
  have "map2 (\<lambda>a x. a * \<rho> x) (coeffs p) R = map2 (\<lambda>a x. a * \<rho>' x) (coeffs p) R"
    by (rule map_cong) (auto dest: set_zip_rightD simp: a)
  then show ?thesis unfolding eval_poly_def by (rule arg_cong)
qed

lemma eval_drop_coordinate:
  assumes k: "k < length R" and len: "length (coeffs p) = length R"
  shows "eval_poly R p \<rho> =
         eval_poly (take k R @ drop (Suc k) R) (drop_coordinate k p) \<rho>
         + monomial_coefficient p k * \<rho> (R ! k)"
proof -
  let ?cs = "coeffs p"
  have cs: "?cs = take k ?cs @ ?cs ! k # drop (Suc k) ?cs"
    using k len by (simp add: id_take_nth_drop)
  have R: "R = take k R @ R ! k # drop (Suc k) R"
    using k by (simp add: id_take_nth_drop)
  have "zip ?cs R = zip (take k ?cs) (take k R) @ (?cs ! k, R ! k) # zip (drop (Suc k) ?cs) (drop (Suc k) R)"
    using k len by (subst cs, subst R) (simp add: zip_append)
  moreover have "zip (take k ?cs @ drop (Suc k) ?cs) (take k R @ drop (Suc k) R) =
      zip (take k ?cs) (take k R) @ zip (drop (Suc k) ?cs) (drop (Suc k) R)"
    using k len by (simp add: zip_append)
  ultimately show ?thesis
    using k len by (simp add: eval_poly_def drop_coordinate_def monomial_coefficient_def)
qed

lemma eval_reduced_update:
  assumes "distinct R" "k < length R"
  shows "eval_poly (take k R @ drop (Suc k) R) q (\<rho>(R ! k := v)) =
         eval_poly (take k R @ drop (Suc k) R) q \<rho>"
proof (rule eval_cong)
  fix x assume "x \<in> set (take k R @ drop (Suc k) R)"
  moreover have "R ! k \<notin> set (take k R @ drop (Suc k) R)"
  proof -
    have "distinct (take k R @ R ! k # drop (Suc k) R)"
      using assms id_take_nth_drop[of k R] by simp
    then show ?thesis by auto
  qed
  ultimately show "(\<rho>(R ! k := v)) x = \<rho> x" by auto
qed

lemma eval_update:
  assumes "distinct R" "k < length R" "length (coeffs p) = length R"
  shows "eval_poly R p (\<rho>(R ! k := v)) =
         eval_poly (take k R @ drop (Suc k) R) (drop_coordinate k p) \<rho>
         + monomial_coefficient p k * v"
  using eval_drop_coordinate[OF assms(2,3), of "\<rho>(R ! k := v)"]
    eval_reduced_update[OF assms(1,2)] by simp

lemma monomial_coefficient_nth:
  "k < length (coeffs p) \<Longrightarrow> monomial_coefficient p k = coeffs p ! k"
  by (simp add: monomial_coefficient_def)

lemma length_combine:
  "length (coeffs l) = n \<Longrightarrow> length (coeffs u) = n \<Longrightarrow> length (coeffs (combine k l u)) = n"
  by (simp add: combine_def coeffs_simps)

lemma monomial_coefficient_combine:
  "length (coeffs l) = n \<Longrightarrow> length (coeffs u) = n \<Longrightarrow> k < n \<Longrightarrow>
   monomial_coefficient (combine k l u) k = 0"
  by (simp add: combine_def coeffs_simps monomial_coefficient_def)

lemma eval_combine:
  "length (coeffs l) = n \<Longrightarrow> length (coeffs u) = n \<Longrightarrow>
   eval_poly R (combine k l u) \<rho> =
     monomial_coefficient u k * eval_poly R l \<rho> - monomial_coefficient l k * eval_poly R u \<rho>"
  by (simp add: combine_def eval_psub eval_smult coeffs_simps)

lemma length_substitute:
  "length (coeffs e) = n \<Longrightarrow> length (coeffs p) = n \<Longrightarrow>
   length (coeffs (substitute n k (psub (gen n k) (sdiv e a)) p)) = n"
  by (simp add: substitute_def coeffs_simps)

lemma monomial_coefficient_substitute:
  assumes "length (coeffs e) = n" "length (coeffs p) = n" "k < n"
    and "monomial_coefficient e k \<noteq> 0"
  shows "monomial_coefficient
           (substitute n k (psub (gen n k) (sdiv e (monomial_coefficient e k))) p) k = 0"
  using assms by (simp add: substitute_def coeffs_simps monomial_coefficient_def)

lemma eval_substitute:
  assumes "length (coeffs e) = length R" "length (coeffs p) = length R" "k < length R"
  shows "eval_poly R (substitute (length R) k (psub (gen (length R) k) (sdiv e a)) p) \<rho> =
         eval_poly R p \<rho> - monomial_coefficient p k * (eval_poly R e \<rho> / a)"
  using assms
  by (simp add: substitute_def eval_padd eval_psub eval_smult eval_sdiv eval_gen coeffs_simps
      algebra_simps)

lemma substitute_pivot:
  assumes "length (coeffs e) = n" "k < n" "monomial_coefficient e k \<noteq> 0"
  shows "substitute n k (psub (gen n k) (sdiv e (monomial_coefficient e k))) e =
         LinPoly 0 (replicate n 0)"
proof -
  let ?a = "monomial_coefficient e k"
  let ?q = "substitute n k (psub (gen n k) (sdiv e ?a)) e"
  have c: "constant_coefficient ?q = 0"
    using assms by (simp add: substitute_def coeffs_simps)
  have "coeffs ?q = replicate n 0"
  proof (rule nth_equalityI)
    show "length (coeffs ?q) = length (replicate n (0::'a))"
      using assms by (simp add: substitute_def coeffs_simps)
  next
    fix j assume "j < length (coeffs ?q)"
    then have j: "j < n" using assms by (simp add: substitute_def coeffs_simps)
    then show "coeffs ?q ! j = replicate n 0 ! j"
      using assms by (simp add: substitute_def coeffs_simps)
  qed
  then show ?thesis using c by (cases ?q) simp
qed

lemma drop_coordinate_zero:
  "k < n \<Longrightarrow> drop_coordinate k (LinPoly 0 (replicate n 0)) = LinPoly 0 (replicate (n - 1) 0)"
  by (simp add: drop_coordinate_def replicate_add[symmetric] min_def)

lemma well_formed_length:
  "well_formed s \<Longrightarrow>
   p \<in> set (members (eq_poly s)) \<union> set (members (lt_poly s)) \<union> set (members (le_poly s)) \<Longrightarrow>
   length (coeffs p) = length (poly_ring s)"
  by (auto simp: well_formed_def list_all_iff)

lemma find_Some_member: "find P xs = Some x \<Longrightarrow> x \<in> set xs \<and> P x"
  by (induction xs) (auto split: if_splits)

lemma find_None_all: "find P xs = None \<Longrightarrow> x \<in> set xs \<Longrightarrow> \<not> P x"
  by (induction xs) (auto split: if_splits)

lemma new_lists_length:
  assumes "\<And>p. p \<in> set eqs \<union> set lts \<union> set les \<Longrightarrow> length (coeffs p) = n"
    and "q \<in> set (fst (new_lists n k eqs lts les)) \<union> set (fst (snd (new_lists n k eqs lts les)))
           \<union> set (snd (snd (new_lists n k eqs lts les)))"
  shows "length (coeffs q) = n"
proof (cases "find (\<lambda>e. monomial_coefficient e k \<noteq> 0) eqs")
  case None
  then show ?thesis
    using assms by (auto simp: new_lists_def fourier_motzkin_def Let_def length_combine)
next
  case (Some e)
  then have "length (coeffs e) = n" using assms(1) find_Some_member by fastforce
  then show ?thesis
    using assms Some by (auto simp: new_lists_def substitution_def Let_def length_substitute)
qed

lemma length_drop_coordinate:
  "length (coeffs p) = n \<Longrightarrow> k < n \<Longrightarrow> length (coeffs (drop_coordinate k p)) = n - 1"
  by (auto simp: drop_coordinate_def)

lemma distinct_reduced: "distinct R \<Longrightarrow> distinct (take k R @ drop (Suc k) R)"
proof -
  assume d: "distinct R"
  then have "distinct (take k R @ drop k R)" by simp
  then have "set (take k R) \<inter> set (drop k R) = {}" by (simp only: distinct_append)
  moreover have "set (drop (Suc k) R) \<subseteq> set (drop k R)"
    by (rule set_drop_subset_set_drop) simp
  ultimately show ?thesis using d by auto
qed

lemma one_step_elimination_well_formed:
  assumes wf: "well_formed s" and i: "0 \<le> i" "i < int (length (poly_ring s))"
  shows "\<exists>r. one_step_elimination s i = Inr r \<and>
     poly_ring r = take (nat i) (poly_ring s) @ drop (Suc (nat i)) (poly_ring s) \<and>
     ambient_dim r = length (poly_ring s) - 1 \<and>
     (\<exists>xs. eq_poly r = PySet xs) \<and> (\<exists>xs. lt_poly r = PySet xs) \<and> (\<exists>xs. le_poly r = PySet xs) \<and>
     set (members (eq_poly r)) = drop_coordinate (nat i) `
       set (fst (new_lists (length (poly_ring s)) (nat i) (members (eq_poly s))
                  (members (lt_poly s)) (members (le_poly s)))) \<and>
     set (members (lt_poly r)) = drop_coordinate (nat i) `
       set (fst (snd (new_lists (length (poly_ring s)) (nat i) (members (eq_poly s))
                  (members (lt_poly s)) (members (le_poly s))))) \<and>
     set (members (le_poly r)) = drop_coordinate (nat i) `
       set (snd (snd (new_lists (length (poly_ring s)) (nat i) (members (eq_poly s))
                  (members (lt_poly s)) (members (le_poly s))))) \<and>
     well_formed r"
proof -
  let ?R = "poly_ring s"
  let ?n = "length ?R"
  let ?k = "nat i"
  let ?new = "new_lists ?n ?k (members (eq_poly s)) (members (lt_poly s)) (members (le_poly s))"
  let ?pm = "map Some [0..<?k] @ None # map Some [?k..<?n - 1]"
  have k: "?k < ?n" using i by linarith
  have len: "\<And>q. q \<in> set (fst ?new) \<union> set (fst (snd ?new)) \<union> set (snd (snd ?new))
      \<Longrightarrow> length (coeffs q) = ?n"
    by (rule new_lists_length[where eqs="members (eq_poly s)" and lts="members (lt_poly s)"
          and les="members (le_poly s)" and k="?k"])
      (use wf well_formed_length in blast)+
  have cp: "\<And>q. q \<in> set (fst ?new) \<union> set (fst (snd ?new)) \<union> set (snd (snd ?new))
      \<Longrightarrow> compose_poly ?pm (?n - 1) q = drop_coordinate ?k q"
    using compose_poly_insert[OF k] len by blast
  have img: "\<And>A. A \<subseteq> set (fst ?new) \<union> set (fst (snd ?new)) \<union> set (snd (snd ?new))
      \<Longrightarrow> compose_poly ?pm (?n - 1) ` A = drop_coordinate ?k ` A"
    using cp by (intro image_cong) auto
  from one_step_elimination_in_range[OF i] obtain r where r:
    "one_step_elimination s i = Inr r \<and>
     poly_ring r = take ?k ?R @ drop (Suc ?k) ?R \<and>
     ambient_dim r = ?n - 1 \<and>
     (\<exists>xs. eq_poly r = PySet xs) \<and> (\<exists>xs. lt_poly r = PySet xs) \<and> (\<exists>xs. le_poly r = PySet xs) \<and>
     set (members (eq_poly r)) = compose_poly ?pm (?n - 1) ` set (fst ?new) \<and>
     set (members (lt_poly r)) = compose_poly ?pm (?n - 1) ` set (fst (snd ?new)) \<and>
     set (members (le_poly r)) = compose_poly ?pm (?n - 1) ` set (snd (snd ?new))"
    by (rule exE)
  have r1: "one_step_elimination s i = Inr r"
    and r2: "poly_ring r = take ?k ?R @ drop (Suc ?k) ?R"
    and r3: "ambient_dim r = ?n - 1"
    and r4: "\<exists>xs. eq_poly r = PySet xs"
    and r5: "\<exists>xs. lt_poly r = PySet xs"
    and r6: "\<exists>xs. le_poly r = PySet xs"
    and r7: "set (members (eq_poly r)) = compose_poly ?pm (?n - 1) ` set (fst ?new)"
    and r8: "set (members (lt_poly r)) = compose_poly ?pm (?n - 1) ` set (fst (snd ?new))"
    and r9: "set (members (le_poly r)) = compose_poly ?pm (?n - 1) ` set (snd (snd ?new))"
    using r by simp_all
  have e: "set (members (eq_poly r)) = drop_coordinate ?k ` set (fst ?new)"
    unfolding r7 by (rule img) blast
  have l: "set (members (lt_poly r)) = drop_coordinate ?k ` set (fst (snd ?new))"
    unfolding r8 by (rule img) blast
  have m: "set (members (le_poly r)) = drop_coordinate ?k ` set (snd (snd ?new))"
    unfolding r9 by (rule img) blast
  have "distinct ?R" using wf by (simp add: well_formed_def)
  then have d: "distinct (poly_ring r)" unfolding r2 by (rule distinct_reduced)
  have n1: "length (poly_ring r) = ?n - 1" unfolding r2 using k by auto
  have lq: "\<And>q. q \<in> set (members (eq_poly r)) \<union> set (members (lt_poly r)) \<union> set (members (le_poly r))
      \<Longrightarrow> length (coeffs q) = ?n - 1"
  proof -
    fix q
    assume "q \<in> set (members (eq_poly r)) \<union> set (members (lt_poly r)) \<union> set (members (le_poly r))"
    then obtain q' where q': "q = drop_coordinate ?k q'"
      "q' \<in> set (fst ?new) \<union> set (fst (snd ?new)) \<union> set (snd (snd ?new))"
      unfolding e l m by blast
    show "length (coeffs q) = ?n - 1"
      unfolding q'(1) using len[OF q'(2)] k by (rule length_drop_coordinate)
  qed
  have w: "well_formed r"
    unfolding well_formed_def list_all_iff n1 set_append using d lq by blast
  show ?thesis
    by (rule exI[of _ r]) (intro conjI r1 r2 r3 r4 r5 r6 e l m w)
qed

lemma set_remove_members:
  "set_remove n e c = Inr c' \<Longrightarrow>
   set (members c') \<subseteq> set (members c) \<and> to_poly_ring n e \<notin> to_poly_ring n ` set (members c')"
  by (cases c) (auto simp: py_eq_def split: if_splits)

lemma members_collapsed:
  "to_poly_ring n ` set (members (temp_of r (collapsed R)))
     \<subseteq> (if r = LE then {one_poly (length R)} else {})"
  by (cases r) (auto simp: collapsed_def in_ring_def)

lemma check_constants_members:
  "check_constants r' R es t = Inr t' \<Longrightarrow>
   to_poly_ring n ` set (members (temp_of r t'))
     \<subseteq> to_poly_ring n ` set (members (temp_of r t)) \<union> (if r = LE then {one_poly (length R)} else {})"
proof (induction es arbitrary: t)
  case Nil
  then show ?case by auto
next
  case (Cons e es)
  show ?case
  proof (cases "parent e \<noteq> PolynomialRing R")
    case False
    then show ?thesis using Cons by simp
  next
    case True
    show ?thesis
    proof (cases "violated r' (to_base_ring e)")
      case v: True
      then have "check_constants r' R es (collapsed R) = Inr t'" using Cons.prems True by simp
      from Cons.IH[OF this] members_collapsed[of n r R] show ?thesis by blast
    next
      case v: False
      then obtain c where c: "set_remove (length R) e (temp_of r' t) = Inr c"
        and rest: "check_constants r' R es (temp_update r' c t) = Inr t'"
        using Cons.prems True by (auto split: sum.splits)
      have "set (members (temp_of r (temp_update r' c t))) \<subseteq> set (members (temp_of r t))"
        using set_remove_members[OF c]
        by (cases "r = r'") (auto simp: temp_of_update_same temp_of_update_other)
      then show ?thesis using Cons.IH[OF rest] by blast
    qed
  qed
qed

lemma check_constants_dropped:
  assumes "Scalar c \<in> set es" "\<not> violated r c" "check_constants r R es t = Inr t'"
  shows "LinPoly c (replicate (length R) 0) \<notin> to_poly_ring (length R) ` set (members (temp_of r t'))"
  using assms
proof (induction es arbitrary: t)
  case Nil
  then show ?case by simp
next
  case (Cons e es)
  have ne: "r = LE \<Longrightarrow> LinPoly c (replicate (length R) 0) \<noteq> one_poly (length R)"
    using Cons.prems(2) by (auto simp: one_poly_def)
  show ?case
  proof (cases "e = Scalar c")
    case True
    then obtain c' where c': "set_remove (length R) (Scalar c) (temp_of r t) = Inr c'"
      and rest: "check_constants r R es (temp_update r c' t) = Inr t'"
      using Cons.prems by (auto split: sum.splits)
    have "LinPoly c (replicate (length R) 0) \<notin> to_poly_ring (length R) ` set (members c')"
      using set_remove_members[OF c'] by simp
    then show ?thesis
      using check_constants_members[OF rest, of "length R" r] ne
      by (auto simp: temp_of_update_same split: if_splits)
  next
    case False
    then have "Scalar c \<in> set es" using Cons.prems by simp
    then show ?thesis
      using Cons.IH Cons.prems(2,3) by (auto split: if_splits sum.splits)
  qed
qed

lemma members_map_collection: "members (map_collection f c) = map f (members c)"
  by (cases c) auto

lemma init_dropped:
  assumes init: "init amb (Some R) eq lt le = Inr s"
    and mem: "Scalar c \<in> set (py_set (length R) (case r of EQ \<Rightarrow> eq | LT \<Rightarrow> lt | LE \<Rightarrow> le))"
    and sat: "\<not> violated r c"
  shows "LinPoly c (replicate (length R) 0)
           \<notin> set (members (case r of EQ \<Rightarrow> eq_poly s | LT \<Rightarrow> lt_poly s | LE \<Rightarrow> le_poly s))"
proof -
  let ?n = "length R"
  let ?q = "LinPoly c (replicate ?n 0)"
  let ?t0 = "(PySet (py_set ?n eq), PySet (py_set ?n lt), PySet (py_set ?n le))"
  from init obtain t1 t2 t3 where
    t1: "check_constants EQ R (py_set ?n eq) ?t0 = Inr t1" and
    t2: "check_constants LT R (py_set ?n lt) t1 = Inr t2" and
    t3: "check_constants LE R (py_set ?n le) t2 = Inr t3" and
    s: "s = \<lparr>poly_ring = R, ambient_dim = (case amb of None \<Rightarrow> ?n | Some d \<Rightarrow> d),
            eq_poly = map_collection (to_poly_ring ?n) (temp_of EQ t3),
            lt_poly = map_collection (to_poly_ring ?n) (temp_of LT t3),
            le_poly = map_collection (to_poly_ring ?n) (temp_of LE t3)\<rparr>"
    by (auto simp: init_def Let_def split: if_splits sum.splits)
  have "?q \<notin> to_poly_ring ?n ` set (members (temp_of r t3))"
  proof (cases r)
    case EQ
    then have "?q \<notin> to_poly_ring ?n ` set (members (temp_of EQ t1))"
      using check_constants_dropped[OF _ _ t1, of c] mem sat by simp
    then have "?q \<notin> to_poly_ring ?n ` set (members (temp_of EQ t2))"
      using check_constants_members[OF t2, of ?n EQ] by auto
    then show ?thesis
      using check_constants_members[OF t3, of ?n EQ] EQ by auto
  next
    case LT
    then have "?q \<notin> to_poly_ring ?n ` set (members (temp_of LT t2))"
      using check_constants_dropped[OF _ _ t2, of c] mem sat by simp
    then show ?thesis
      using check_constants_members[OF t3, of ?n LT] LT by auto
  next
    case LE
    then show ?thesis
      using check_constants_dropped[OF _ _ t3, of c] mem sat by simp
  qed
  then show ?thesis
    using s by (cases r) (simp_all add: members_map_collection)
qed

lemma substitution_keeps_zero:
  assumes wf: "well_formed s" and i: "0 \<le> i" "i < int (length (poly_ring s))"
    and f: "find (\<lambda>e. monomial_coefficient e (nat i) \<noteq> 0) (members (eq_poly s)) = Some e"
  shows "\<exists>r. one_step_elimination s i = Inr r \<and>
             LinPoly 0 (replicate (length (poly_ring s) - 1) 0) \<in> set (members (eq_poly r))"
proof -
  let ?n = "length (poly_ring s)"
  let ?k = "nat i"
  let ?new = "new_lists ?n ?k (members (eq_poly s)) (members (lt_poly s)) (members (le_poly s))"
  have k: "?k < ?n" using i by linarith
  have e: "e \<in> set (members (eq_poly s))" "monomial_coefficient e ?k \<noteq> 0"
    using find_Some_member[OF f] by auto
  then have len: "length (coeffs e) = ?n" using well_formed_length[OF wf] by blast
  have "substitute ?n ?k (psub (gen ?n ?k) (sdiv e (monomial_coefficient e ?k))) e \<in> set (fst ?new)"
    using e f by (simp add: new_lists_def substitution_def Let_def)
  then have "LinPoly 0 (replicate ?n 0) \<in> set (fst ?new)"
    using substitute_pivot[OF len k e(2)] by simp
  then have "drop_coordinate ?k (LinPoly 0 (replicate ?n 0)) \<in> drop_coordinate ?k ` set (fst ?new)"
    by (rule imageI)
  then have "LinPoly 0 (replicate (?n - 1) 0) \<in> drop_coordinate ?k ` set (fst ?new)"
    unfolding drop_coordinate_zero[OF k] .
  then show ?thesis
    using one_step_elimination_well_formed[OF wf i] by auto
qed

lemma well_formed_pinned_store: "well_formed pinned_store"
  by (simp add: pinned_store_def well_formed_def)

lemma pinned_store_step:
  "one_step_elimination pinned_store 0 =
     Inr \<lparr>poly_ring = [''y''], ambient_dim = 1,
          eq_poly = PySet [LinPoly 0 [0]],
          lt_poly = PySet [LinPoly 0 [- 4]],
          le_poly = PySet []\<rparr>"
  by (simp add: one_step_elimination_def pinned_store_def Let_def tuple_index_def
      list_insert_def new_lists_def substitution_def substitute_def monomial_coefficient_def
      gen_def psub_def padd_def smult_def sdiv_def init_def in_ring_def degree_def
      section_of_def compose_poly_def compose_coefficient_def py_eq_def numeral_2_eq_2)

text \<open>
  C5 (amended). A trivially satisfied constant constraint that is a base ring element and a
  member of the Python set built from its input list (an equal element that stands earlier in
  the list takes its place in the set) is dropped at construction: when the constructor
  returns, the constant is not in the collection of its kind. In the substitution branch of
  \<open>one_step_elimination\<close> the equality used to solve for the eliminated variable becomes the
  zero polynomial, and the zero polynomial is kept in the set of equalities of the result.
\<close>

theorem satisfied_constant_dropped_pivot_kept:
  "(init amb (Some R) eq lt le = Inr b \<and>
    Scalar c \<in> set (py_set (length R) (case r of EQ \<Rightarrow> eq | LT \<Rightarrow> lt | LE \<Rightarrow> le)) \<and>
    \<not> violated r c
    \<longrightarrow> LinPoly c (replicate (length R) 0)
          \<notin> set (members (case r of EQ \<Rightarrow> eq_poly b | LT \<Rightarrow> lt_poly b | LE \<Rightarrow> le_poly b))) \<and>
   (well_formed s \<and> 0 \<le> i \<and> i < int (length (poly_ring s)) \<and>
    find (\<lambda>e. monomial_coefficient e (nat i) \<noteq> 0) (members (eq_poly s)) = Some e
    \<longrightarrow> (\<exists>r. one_step_elimination s i = Inr r \<and>
             LinPoly 0 (replicate (length (poly_ring s) - 1) 0) \<in> set (members (eq_poly r))))"
  using init_dropped[of amb R eq lt le b c r] substitution_keeps_zero[of s i e]
  by blast

lemma init_zero:
  "init None (Some [''x'', ''y'']) [Scalar (0::rat)] [] [in_ring [''x'', ''y''] (LinPoly 0 [1, 0])] =
     Inr \<lparr>poly_ring = [''x'', ''y''], ambient_dim = 2, eq_poly = PySet [], lt_poly = PySet [],
          le_poly = PySet [LinPoly 0 [1, 0]]\<rparr>"
  by (simp add: init_def Let_def degree_def in_ring_def py_eq_def numeral_2_eq_2)

theorem satisfied_constant_dropped_pivot_kept_witness:
  "init None (Some [''x'', ''y'']) [Scalar (0::rat)] [] [in_ring [''x'', ''y''] (LinPoly 0 [1, 0])] =
     Inr \<lparr>poly_ring = [''x'', ''y''], ambient_dim = 2, eq_poly = PySet [], lt_poly = PySet [],
          le_poly = PySet [LinPoly 0 [1, 0]]\<rparr> \<and>
   LinPoly (0::rat) (replicate 2 0) \<notin> set (members (PySet [])) \<and>
   well_formed pinned_store \<and>
   find (\<lambda>e. monomial_coefficient e 0 \<noteq> 0) (members (eq_poly pinned_store)) = Some (LinPoly 3 [1, 2]) \<and>
   (\<exists>r. one_step_elimination pinned_store 0 = Inr r \<and>
        LinPoly 0 (replicate 1 0) \<in> set (members (eq_poly r)))"
proof -
  have f: "find (\<lambda>e. monomial_coefficient e 0 \<noteq> 0) (members (eq_poly pinned_store))
           = Some (LinPoly 3 [1, 2])"
    by (simp add: pinned_store_def monomial_coefficient_def)
  have l: "length (poly_ring pinned_store) = 2" by (simp add: pinned_store_def)
  show ?thesis
    using satisfied_constant_dropped_pivot_kept[of None "[''x'', ''y'']" "[Scalar (0::rat)]" "[]"
        "[in_ring [''x'', ''y''] (LinPoly 0 [1, 0])]"
        "\<lparr>poly_ring = [''x'', ''y''], ambient_dim = 2, eq_poly = PySet [], lt_poly = PySet [],
          le_poly = PySet [LinPoly 0 [1, 0]]\<rparr>" 0 EQ pinned_store 0 "LinPoly 3 [1, 2]"]
      init_zero f well_formed_pinned_store l
    by simp
qed

theorem pivot_retained_counterexample:
  "one_step_elimination pinned_store 0 =
     Inr \<lparr>poly_ring = [''y''], ambient_dim = 1,
          eq_poly = PySet [LinPoly 0 [0]],
          lt_poly = PySet [LinPoly 0 [- 4]],
          le_poly = PySet []\<rparr> \<and>
   find (\<lambda>e. monomial_coefficient e 0 \<noteq> 0) (members (eq_poly pinned_store)) = Some (LinPoly 3 [1, 2])"
  using pinned_store_step by (simp add: pinned_store_def monomial_coefficient_def)

lemma new_lists_fourier_motzkin:
  "list_all (\<lambda>e. monomial_coefficient e k = 0) eqs \<Longrightarrow>
   new_lists n k eqs lts les = fourier_motzkin k eqs lts les"
  by (auto simp: new_lists_def list_all_iff find_None_iff split: option.splits
      dest: find_Some_member)

lemma set_combinations:
  "set (concat (map (\<lambda>l. map (\<lambda>u. f l u) (filter Q us)) (filter P ls))) =
     {f l u |l u. l \<in> set ls \<and> P l \<and> u \<in> set us \<and> Q u}"
  by auto

lemma fourier_motzkin_sets:
  fixes lts les :: "'a::linordered_field linpoly list"
  shows "fst (fourier_motzkin k eqs lts les) = eqs"
  and "set (fst (snd (fourier_motzkin k eqs lts les))) =
     {p \<in> set lts. monomial_coefficient p k = 0}
     \<union> {combine k l u |l u. l \<in> set les \<and> monomial_coefficient l k < 0 \<and>
                             u \<in> set lts \<and> 0 < monomial_coefficient u k}
     \<union> {combine k l u |l u. l \<in> set lts \<and> monomial_coefficient l k < 0 \<and>
                             u \<in> set les \<and> 0 < monomial_coefficient u k}
     \<union> {combine k l u |l u. l \<in> set lts \<and> monomial_coefficient l k < 0 \<and>
                             u \<in> set lts \<and> 0 < monomial_coefficient u k}"
  and "set (snd (snd (fourier_motzkin k eqs lts les))) =
     {p \<in> set les. monomial_coefficient p k = 0}
     \<union> {combine k l u |l u. l \<in> set les \<and> monomial_coefficient l k < 0 \<and>
                             u \<in> set les \<and> 0 < monomial_coefficient u k}"
proof -
  show "fst (fourier_motzkin k eqs lts les) = eqs"
    by (simp add: fourier_motzkin_def Let_def)
  have z: "\<And>x::'a. (\<not> 0 < x \<and> \<not> x < 0) = (x = 0)" by auto
  have m: "\<And>x::'a. (\<not> 0 < x \<and> x < 0) = (x < 0)" by auto
  show "set (fst (snd (fourier_motzkin k eqs lts les))) =
     {p \<in> set lts. monomial_coefficient p k = 0}
     \<union> {combine k l u |l u. l \<in> set les \<and> monomial_coefficient l k < 0 \<and>
                             u \<in> set lts \<and> 0 < monomial_coefficient u k}
     \<union> {combine k l u |l u. l \<in> set lts \<and> monomial_coefficient l k < 0 \<and>
                             u \<in> set les \<and> 0 < monomial_coefficient u k}
     \<union> {combine k l u |l u. l \<in> set lts \<and> monomial_coefficient l k < 0 \<and>
                             u \<in> set lts \<and> 0 < monomial_coefficient u k}"
    unfolding fourier_motzkin_def Let_def z m fst_conv snd_conv set_append set_combinations
      set_filter
    by (simp only: Un_assoc)
  show "set (snd (snd (fourier_motzkin k eqs lts les))) =
     {p \<in> set les. monomial_coefficient p k = 0}
     \<union> {combine k l u |l u. l \<in> set les \<and> monomial_coefficient l k < 0 \<and>
                             u \<in> set les \<and> 0 < monomial_coefficient u k}"
    unfolding fourier_motzkin_def Let_def z m fst_conv snd_conv set_append set_combinations
      set_filter
    by (rule refl)
qed

text \<open>
  C4. In the Fourier-Motzkin branch (no equality has a non-zero coefficient on the
  eliminated variable) the strict inequalities of the result are the strict inequalities with
  coefficient zero and every combination of a lower with an upper bound of which at least one
  is strict; the non-strict inequalities of the result are the non-strict inequalities with
  coefficient zero and every combination of two non-strict bounds; the equalities are carried
  through. Each is read in the ring without the eliminated variable.
\<close>

theorem fourier_motzkin_strictness:
  "well_formed s \<and> 0 \<le> i \<and> i < int (length (poly_ring s)) \<and>
   list_all (\<lambda>e. monomial_coefficient e (nat i) = 0) (members (eq_poly s)) \<longrightarrow>
   (\<exists>r. one_step_elimination s i = Inr r \<and>
      set (members (eq_poly r)) = drop_coordinate (nat i) ` set (members (eq_poly s)) \<and>
      set (members (lt_poly r)) = drop_coordinate (nat i) `
        ({p \<in> set (members (lt_poly s)). monomial_coefficient p (nat i) = 0}
         \<union> {combine (nat i) l u |l u.
              l \<in> set (members (le_poly s)) \<and> monomial_coefficient l (nat i) < 0 \<and>
              u \<in> set (members (lt_poly s)) \<and> 0 < monomial_coefficient u (nat i)}
         \<union> {combine (nat i) l u |l u.
              l \<in> set (members (lt_poly s)) \<and> monomial_coefficient l (nat i) < 0 \<and>
              u \<in> set (members (le_poly s)) \<and> 0 < monomial_coefficient u (nat i)}
         \<union> {combine (nat i) l u |l u.
              l \<in> set (members (lt_poly s)) \<and> monomial_coefficient l (nat i) < 0 \<and>
              u \<in> set (members (lt_poly s)) \<and> 0 < monomial_coefficient u (nat i)}) \<and>
      set (members (le_poly r)) = drop_coordinate (nat i) `
        ({p \<in> set (members (le_poly s)). monomial_coefficient p (nat i) = 0}
         \<union> {combine (nat i) l u |l u.
              l \<in> set (members (le_poly s)) \<and> monomial_coefficient l (nat i) < 0 \<and>
              u \<in> set (members (le_poly s)) \<and> 0 < monomial_coefficient u (nat i)}))"
proof (intro impI, elim conjE)
  assume wf: "well_formed s" and i: "0 \<le> i" "i < int (length (poly_ring s))"
    and fm: "list_all (\<lambda>e. monomial_coefficient e (nat i) = 0) (members (eq_poly s))"
  let ?new = "new_lists (length (poly_ring s)) (nat i) (members (eq_poly s))
                (members (lt_poly s)) (members (le_poly s))"
  from one_step_elimination_well_formed[OF wf i] obtain r where
    r: "one_step_elimination s i = Inr r"
    and e: "set (members (eq_poly r)) = drop_coordinate (nat i) ` set (fst ?new)"
    and l: "set (members (lt_poly r)) = drop_coordinate (nat i) ` set (fst (snd ?new))"
    and m: "set (members (le_poly r)) = drop_coordinate (nat i) ` set (snd (snd ?new))"
    by (elim exE conjE)
  note sets = new_lists_fourier_motzkin[OF fm] fourier_motzkin_sets
  show "\<exists>r. one_step_elimination s i = Inr r \<and>
      set (members (eq_poly r)) = drop_coordinate (nat i) ` set (members (eq_poly s)) \<and>
      set (members (lt_poly r)) = drop_coordinate (nat i) `
        ({p \<in> set (members (lt_poly s)). monomial_coefficient p (nat i) = 0}
         \<union> {combine (nat i) l u |l u.
              l \<in> set (members (le_poly s)) \<and> monomial_coefficient l (nat i) < 0 \<and>
              u \<in> set (members (lt_poly s)) \<and> 0 < monomial_coefficient u (nat i)}
         \<union> {combine (nat i) l u |l u.
              l \<in> set (members (lt_poly s)) \<and> monomial_coefficient l (nat i) < 0 \<and>
              u \<in> set (members (le_poly s)) \<and> 0 < monomial_coefficient u (nat i)}
         \<union> {combine (nat i) l u |l u.
              l \<in> set (members (lt_poly s)) \<and> monomial_coefficient l (nat i) < 0 \<and>
              u \<in> set (members (lt_poly s)) \<and> 0 < monomial_coefficient u (nat i)}) \<and>
      set (members (le_poly r)) = drop_coordinate (nat i) `
        ({p \<in> set (members (le_poly s)). monomial_coefficient p (nat i) = 0}
         \<union> {combine (nat i) l u |l u.
              l \<in> set (members (le_poly s)) \<and> monomial_coefficient l (nat i) < 0 \<and>
              u \<in> set (members (le_poly s)) \<and> 0 < monomial_coefficient u (nat i)})"
    by (rule exI[of _ r]) (intro conjI r e[unfolded sets] l[unfolded sets] m[unfolded sets])
qed

lemma well_formed_example_store: "well_formed example_store"
  by (simp add: example_store_def well_formed_def)

theorem fourier_motzkin_strictness_witness:
  "well_formed example_store \<and>
   list_all (\<lambda>e. monomial_coefficient e 0 = 0) (members (eq_poly example_store)) \<and>
   (\<exists>r. one_step_elimination example_store 0 = Inr r \<and>
        LinPoly 6 [- 4] \<in> set (members (lt_poly r)) \<and>
        LinPoly 9 [1] \<in> set (members (le_poly r)))"
proof -
  have e: "list_all (\<lambda>e. monomial_coefficient e 0 = 0) (members (eq_poly example_store))"
    by (simp add: example_store_def)
  have l: "length (poly_ring example_store) = 2" by (simp add: example_store_def)
  have c1: "drop_coordinate 0 (combine 0 (LinPoly 3 [- 1, - 2]) (LinPoly 3 [1, - 2]))
            = LinPoly (6::rat) [- 4]"
    by (simp add: drop_coordinate_def combine_def psub_def smult_def monomial_coefficient_def)
  have c2: "drop_coordinate 0 (combine 0 (LinPoly 3 [- 1, - 2]) (LinPoly 3 [2, 5]))
            = LinPoly (9::rat) [1]"
    by (simp add: drop_coordinate_def combine_def psub_def smult_def monomial_coefficient_def)
  from fourier_motzkin_strictness[of example_store 0] well_formed_example_store e l
  obtain r where r: "one_step_elimination example_store 0 = Inr r"
    and lt: "set (members (lt_poly r)) = drop_coordinate 0 `
        ({p \<in> set (members (lt_poly example_store)). monomial_coefficient p 0 = 0}
         \<union> {combine 0 l u |l u.
              l \<in> set (members (le_poly example_store)) \<and> monomial_coefficient l 0 < 0 \<and>
              u \<in> set (members (lt_poly example_store)) \<and> 0 < monomial_coefficient u 0}
         \<union> {combine 0 l u |l u.
              l \<in> set (members (lt_poly example_store)) \<and> monomial_coefficient l 0 < 0 \<and>
              u \<in> set (members (le_poly example_store)) \<and> 0 < monomial_coefficient u 0}
         \<union> {combine 0 l u |l u.
              l \<in> set (members (lt_poly example_store)) \<and> monomial_coefficient l 0 < 0 \<and>
              u \<in> set (members (lt_poly example_store)) \<and> 0 < monomial_coefficient u 0})"
    and le: "set (members (le_poly r)) = drop_coordinate 0 `
        ({p \<in> set (members (le_poly example_store)). monomial_coefficient p 0 = 0}
         \<union> {combine 0 l u |l u.
              l \<in> set (members (le_poly example_store)) \<and> monomial_coefficient l 0 < 0 \<and>
              u \<in> set (members (le_poly example_store)) \<and> 0 < monomial_coefficient u 0})"
    by auto
  have "combine 0 (LinPoly 3 [- 1, - 2]) (LinPoly 3 [1, - 2]) \<in>
        {combine 0 l u |l u.
              l \<in> set (members (le_poly example_store)) \<and> monomial_coefficient l 0 < 0 \<and>
              u \<in> set (members (lt_poly example_store)) \<and> 0 < monomial_coefficient u 0}"
    by (rule CollectI, rule exI[of _ "LinPoly 3 [- 1, - 2]"], rule exI[of _ "LinPoly 3 [1, - 2]"])
      (simp add: example_store_def monomial_coefficient_def)
  then have "LinPoly 6 [- 4] \<in> set (members (lt_poly r))"
    unfolding lt c1[symmetric] by blast
  moreover have "combine 0 (LinPoly 3 [- 1, - 2]) (LinPoly 3 [2, 5]) \<in>
        {combine 0 l u |l u.
              l \<in> set (members (le_poly example_store)) \<and> monomial_coefficient l 0 < 0 \<and>
              u \<in> set (members (le_poly example_store)) \<and> 0 < monomial_coefficient u 0}"
    by (rule CollectI, rule exI[of _ "LinPoly 3 [- 1, - 2]"], rule exI[of _ "LinPoly 3 [2, 5]"])
      (simp add: example_store_def monomial_coefficient_def)
  then have "LinPoly 9 [1] \<in> set (members (le_poly r))"
    unfolding le c2[symmetric] by blast
  ultimately show ?thesis using r well_formed_example_store e by blast
qed

lemma gens_index_less: "c \<in> set R \<Longrightarrow> gens_index R c < length R"
  by (induction R) auto

lemma nth_gens_index: "c \<in> set R \<Longrightarrow> R ! gens_index R c = c"
  by (induction R) auto

lemma gens_index_nth: "distinct R \<Longrightarrow> k < length R \<Longrightarrow> gens_index R (R ! k) = k"
proof (induction R arbitrary: k)
  case Nil
  then show ?case by simp
next
  case (Cons x xs)
  then show ?case by (cases k) auto
qed

lemma nth_reduced:
  "k < length R \<Longrightarrow> j < length R \<Longrightarrow> j \<noteq> k \<Longrightarrow>
   (take k R @ drop (Suc k) R) ! (if k < j then j - 1 else j) = R ! j"
  by (auto simp: nth_append min_def)

lemma gens_index_reduced:
  assumes d: "distinct R" and k: "k < length R" and c: "c \<in> set R" "c \<noteq> R ! k"
  shows "gens_index (take k R @ drop (Suc k) R) c =
         (if k < gens_index R c then gens_index R c - 1 else gens_index R c)"
proof -
  let ?j = "gens_index R c"
  let ?m = "if k < ?j then ?j - 1 else ?j"
  have j: "?j < length R" "R ! ?j = c" using c gens_index_less nth_gens_index by fastforce+
  then have jk: "?j \<noteq> k" using c by auto
  have m: "?m < length (take k R @ drop (Suc k) R)" using j k jk by auto
  have "(take k R @ drop (Suc k) R) ! ?m = c"
    using nth_reduced[OF k j(1) jk] j(2) by simp
  then have "gens_index (take k R @ drop (Suc k) R) c
             = gens_index (take k R @ drop (Suc k) R) ((take k R @ drop (Suc k) R) ! ?m)"
    by simp
  also have "\<dots> = ?m"
    by (rule gens_index_nth[OF distinct_reduced[OF d] m])
  finally show ?thesis .
qed

lemma set_reduced:
  "distinct R \<Longrightarrow> k < length R \<Longrightarrow> set (take k R @ drop (Suc k) R) = set R - {R ! k}"
proof -
  assume d: "distinct R" and k: "k < length R"
  have R: "R = take k R @ R ! k # drop (Suc k) R" using k by (simp add: id_take_nth_drop)
  have "distinct (take k R @ R ! k # drop (Suc k) R)" using d R by simp
  then have "R ! k \<notin> set (take k R) \<union> set (drop (Suc k) R)" by auto
  moreover have "set R = set (take k R) \<union> {R ! k} \<union> set (drop (Suc k) R)"
    by (subst R) auto
  ultimately show ?thesis by auto
qed

lemma eliminate_positions_sequential:
  "distinct (poly_ring s) \<Longrightarrow> distinct cs \<Longrightarrow> set cs \<subseteq> set (poly_ring s) \<Longrightarrow>
   eliminate_positions s (map (\<lambda>c. int (gens_index (poly_ring s) c)) cs)
     = sequential_elimination s cs \<and>
   (\<exists>r. sequential_elimination s cs = Inr r)"
proof (induction cs arbitrary: s)
  case Nil
  then show ?case by simp
next
  case (Cons c cs)
  let ?R = "poly_ring s"
  let ?k = "gens_index ?R c"
  have c: "c \<in> set ?R" using Cons.prems by simp
  have k: "?k < length ?R" and ck: "?R ! ?k = c"
    using c gens_index_less nth_gens_index by fastforce+
  from one_step_elimination_in_range[of "int ?k" s] k
  obtain r where r: "one_step_elimination s (int ?k) = Inr r"
    and ring: "poly_ring r = take ?k ?R @ drop (Suc ?k) ?R"
    by auto
  have d': "distinct (poly_ring r)"
    unfolding ring using Cons.prems(1) by (rule distinct_reduced)
  have sub: "set cs \<subseteq> set (poly_ring r)"
    unfolding ring set_reduced[OF Cons.prems(1) k] ck using Cons.prems(2,3) by auto
  have eq: "map (\<lambda>p. if int ?k < p then p - 1 else p) (map (\<lambda>c. int (gens_index ?R c)) cs)
        = map (\<lambda>c. int (gens_index (poly_ring r) c)) cs"
  proof (unfold map_map o_def, rule map_cong[OF refl])
    fix x assume x: "x \<in> set cs"
    then have xR: "x \<in> set ?R" "x \<noteq> ?R ! ?k" using Cons.prems ck by auto
    have g: "0 < gens_index ?R x" if "?k < gens_index ?R x" using that by simp
    show "(if int ?k < int (gens_index ?R x) then int (gens_index ?R x) - 1 else int (gens_index ?R x))
          = int (gens_index (poly_ring r) x)"
      unfolding ring gens_index_reduced[OF Cons.prems(1) k xR] using g by auto
  qed
  have dcs: "distinct cs" using Cons.prems(2) by simp
  note IH = Cons.IH[OF d' dcs sub]
  have "eliminate_positions s (map (\<lambda>c. int (gens_index ?R c)) (c # cs))
        = eliminate_positions r
            (map (\<lambda>p. if int ?k < p then p - 1 else p) (map (\<lambda>c. int (gens_index ?R c)) cs))"
    using r by simp
  also have "\<dots> = sequential_elimination r cs"
    unfolding eq using IH by (rule conjunct1)
  also have "\<dots> = sequential_elimination s (c # cs)"
    using r by simp
  finally have 1: "eliminate_positions s (map (\<lambda>c. int (gens_index ?R c)) (c # cs))
        = sequential_elimination s (c # cs)" .
  have 2: "\<exists>r'. sequential_elimination s (c # cs) = Inr r'"
    using r IH by simp
  show ?case using 1 2 by (rule conjI)
qed



section \<open>Eliminating a variable from bounds\<close>

lemma bounds_between:
  fixes sl nl su nu :: "'a::linordered_field set"
  assumes fin: "finite sl" "finite nl" "finite su" "finite nu"
    and nn: "\<And>l u. l \<in> nl \<Longrightarrow> u \<in> nu \<Longrightarrow> l \<le> u"
    and ns: "\<And>l u. l \<in> nl \<Longrightarrow> u \<in> su \<Longrightarrow> l < u"
    and sn: "\<And>l u. l \<in> sl \<Longrightarrow> u \<in> nu \<Longrightarrow> l < u"
    and ss: "\<And>l u. l \<in> sl \<Longrightarrow> u \<in> su \<Longrightarrow> l < u"
  shows "\<exists>v. (\<forall>b\<in>sl. b < v) \<and> (\<forall>b\<in>nl. b \<le> v) \<and> (\<forall>b\<in>su. v < b) \<and> (\<forall>b\<in>nu. v \<le> b)"
proof -
  let ?L = "sl \<union> nl" and ?U = "su \<union> nu"
  have fL: "finite ?L" and fU: "finite ?U" using fin by auto
  have le: "\<And>l u. l \<in> ?L \<Longrightarrow> u \<in> ?U \<Longrightarrow> l \<le> u"
    using nn ns sn ss by (auto intro: less_imp_le)
  show ?thesis
  proof (cases "?L = {}")
    case L: True
    show ?thesis
    proof (cases "?U = {}")
      case True
      then show ?thesis using L by auto
    next
      case False
      have "\<And>u. u \<in> ?U \<Longrightarrow> Min ?U - 1 < u"
        using Min_le[OF fU] by (smt (verit) diff_less_eq less_add_one order_le_less_trans add.commute)
      then show ?thesis using L by (intro exI[of _ "Min ?U - 1"]) (auto intro: less_imp_le)
    qed
  next
    case L: False
    show ?thesis
    proof (cases "?U = {}")
      case True
      have "\<And>l. l \<in> ?L \<Longrightarrow> l < Max ?L + 1"
        using Max_ge[OF fL] by (meson less_add_one order_le_less_trans)
      then show ?thesis using True by (intro exI[of _ "Max ?L + 1"]) (auto intro: less_imp_le)
    next
      case U: False
      let ?M = "Max ?L" and ?m = "Min ?U"
      have M: "?M \<in> ?L" using Max_in[OF fL L] .
      have m: "?m \<in> ?U" using Min_in[OF fU U] .
      have lM: "\<And>l. l \<in> ?L \<Longrightarrow> l \<le> ?M" using Max_ge[OF fL] .
      have mu: "\<And>u. u \<in> ?U \<Longrightarrow> ?m \<le> u" using Min_le[OF fU] .
      have Mm: "?M \<le> ?m" using le[OF M m] .
      show ?thesis
      proof (cases "?M < ?m")
        case True
        let ?v = "(?M + ?m) / 2"
        have v: "?M < ?v" "?v < ?m" using True by (simp_all add: field_simps)
        have "\<And>l. l \<in> ?L \<Longrightarrow> l < ?v" using lM v(1) by (meson order_le_less_trans)
        moreover have "\<And>u. u \<in> ?U \<Longrightarrow> ?v < u" using mu v(2) by (meson order_less_le_trans)
        ultimately show ?thesis by (intro exI[of _ ?v]) (auto intro: less_imp_le)
      next
        case False
        then have eq: "?M = ?m" using Mm by simp
        have a: "\<And>l. l \<in> sl \<Longrightarrow> l < ?M"
        proof -
          fix l assume l: "l \<in> sl"
          have "l < ?m" using m sn[OF l] ss[OF l] by auto
          then show "l < ?M" using eq by simp
        qed
        have b: "\<And>l. l \<in> nl \<Longrightarrow> l \<le> ?M" using lM by auto
        have c: "\<And>u. u \<in> su \<Longrightarrow> ?M < u"
        proof -
          fix u assume u: "u \<in> su"
          show "?M < u" using M ns[OF _ u] ss[OF _ u] by auto
        qed
        have d: "\<And>u. u \<in> nu \<Longrightarrow> ?M \<le> u" using mu eq by auto
        show ?thesis using a b c d by (intro exI[of _ ?M]) auto
      qed
    qed
  qed
qed

lemma lower_bound_iff:
  fixes a r v :: "'a::linordered_field"
  assumes "a < 0"
  shows "(r + a * v < 0) = (- r / a < v)" "(r + a * v \<le> 0) = (- r / a \<le> v)"
proof -
  have "(r + a * v < 0) = (v * a < - r)" by (auto simp: mult.commute)
  then show "(r + a * v < 0) = (- r / a < v)"
    using neg_divide_less_eq[OF assms, of "- r" v] by simp
  have "(r + a * v \<le> 0) = (v * a \<le> - r)" by (auto simp: mult.commute)
  then show "(r + a * v \<le> 0) = (- r / a \<le> v)"
    using neg_divide_le_eq[OF assms, of "- r" v] by simp
qed

lemma upper_bound_iff:
  fixes a r v :: "'a::linordered_field"
  assumes "0 < a"
  shows "(r + a * v < 0) = (v < - r / a)" "(r + a * v \<le> 0) = (v \<le> - r / a)"
proof -
  have "(r + a * v < 0) = (v * a < - r)" by (auto simp: mult.commute)
  then show "(r + a * v < 0) = (v < - r / a)"
    using pos_less_divide_eq[OF assms, of v "- r"] by simp
  have "(r + a * v \<le> 0) = (v * a \<le> - r)" by (auto simp: mult.commute)
  then show "(r + a * v \<le> 0) = (v \<le> - r / a)"
    using pos_le_divide_eq[OF assms, of v "- r"] by simp
qed

lemma pair_bound_iff:
  fixes al au rl ru :: "'a::linordered_field"
  assumes "al < 0" "0 < au"
  shows "(au * rl - al * ru < 0) = (- rl / al < - ru / au)"
    "(au * rl - al * ru \<le> 0) = (- rl / al \<le> - ru / au)"
  using assms by (simp_all add: field_simps)

lemma fourier_motzkin_sound:
  fixes rr a :: "'p \<Rightarrow> 'a::linordered_field"
  assumes l: "a l < 0" and u: "0 < a u"
  shows "rr l + a l * v \<le> 0 \<Longrightarrow> rr u + a u * v \<le> 0 \<Longrightarrow> a u * rr l - a l * rr u \<le> 0"
    and "rr l + a l * v \<le> 0 \<Longrightarrow> rr u + a u * v < 0 \<Longrightarrow> a u * rr l - a l * rr u < 0"
    and "rr l + a l * v < 0 \<Longrightarrow> rr u + a u * v \<le> 0 \<Longrightarrow> a u * rr l - a l * rr u < 0"
    and "rr l + a l * v < 0 \<Longrightarrow> rr u + a u * v < 0 \<Longrightarrow> a u * rr l - a l * rr u < 0"
proof -
  show "rr l + a l * v \<le> 0 \<Longrightarrow> rr u + a u * v \<le> 0 \<Longrightarrow> a u * rr l - a l * rr u \<le> 0"
    unfolding lower_bound_iff(2)[OF l] upper_bound_iff(2)[OF u] pair_bound_iff(2)[OF l u]
    by (rule order_trans)
  show "rr l + a l * v \<le> 0 \<Longrightarrow> rr u + a u * v < 0 \<Longrightarrow> a u * rr l - a l * rr u < 0"
    unfolding lower_bound_iff(2)[OF l] upper_bound_iff(1)[OF u] pair_bound_iff(1)[OF l u]
    by (rule le_less_trans)
  show "rr l + a l * v < 0 \<Longrightarrow> rr u + a u * v \<le> 0 \<Longrightarrow> a u * rr l - a l * rr u < 0"
    unfolding lower_bound_iff(1)[OF l] upper_bound_iff(2)[OF u] pair_bound_iff(1)[OF l u]
    by (rule less_le_trans)
  show "rr l + a l * v < 0 \<Longrightarrow> rr u + a u * v < 0 \<Longrightarrow> a u * rr l - a l * rr u < 0"
    unfolding lower_bound_iff(1)[OF l] upper_bound_iff(1)[OF u] pair_bound_iff(1)[OF l u]
    by (rule less_trans)
qed

lemma fourier_motzkin_complete:
  fixes rr a :: "'p \<Rightarrow> 'a::linordered_field" and lts les :: "'p list"
  assumes z1: "\<And>p. p \<in> set lts \<Longrightarrow> a p = 0 \<Longrightarrow> rr p < 0"
    and z2: "\<And>p. p \<in> set les \<Longrightarrow> a p = 0 \<Longrightarrow> rr p \<le> 0"
    and ns: "\<And>l u. l \<in> set les \<Longrightarrow> u \<in> set lts \<Longrightarrow> a l < 0 \<Longrightarrow> 0 < a u
               \<Longrightarrow> a u * rr l - a l * rr u < 0"
    and sn: "\<And>l u. l \<in> set lts \<Longrightarrow> u \<in> set les \<Longrightarrow> a l < 0 \<Longrightarrow> 0 < a u
               \<Longrightarrow> a u * rr l - a l * rr u < 0"
    and ss: "\<And>l u. l \<in> set lts \<Longrightarrow> u \<in> set lts \<Longrightarrow> a l < 0 \<Longrightarrow> 0 < a u
               \<Longrightarrow> a u * rr l - a l * rr u < 0"
    and nn: "\<And>l u. l \<in> set les \<Longrightarrow> u \<in> set les \<Longrightarrow> a l < 0 \<Longrightarrow> 0 < a u
               \<Longrightarrow> a u * rr l - a l * rr u \<le> 0"
  shows "\<exists>v. (\<forall>p\<in>set lts. rr p + a p * v < 0) \<and> (\<forall>p\<in>set les. rr p + a p * v \<le> 0)"
proof -
  define b where "b p = - rr p / a p" for p
  define sl where "sl = b ` {p \<in> set lts. a p < 0}"
  define nl where "nl = b ` {p \<in> set les. a p < 0}"
  define su where "su = b ` {p \<in> set lts. 0 < a p}"
  define nu where "nu = b ` {p \<in> set les. 0 < a p}"
  have "\<exists>v. (\<forall>x\<in>sl. x < v) \<and> (\<forall>x\<in>nl. x \<le> v) \<and> (\<forall>x\<in>su. v < x) \<and> (\<forall>x\<in>nu. v \<le> x)"
  proof (rule bounds_between)
    show "finite sl" "finite nl" "finite su" "finite nu"
      by (simp_all add: sl_def nl_def su_def nu_def)
  next
    fix x y assume "x \<in> nl" "y \<in> nu"
    then obtain l u where l: "l \<in> set les" "a l < 0" "x = b l" and u: "u \<in> set les" "0 < a u" "y = b u"
      unfolding nl_def nu_def by auto
    show "x \<le> y"
      unfolding l(3) u(3) b_def pair_bound_iff(2)[OF l(2) u(2), symmetric]
      by (rule nn[OF l(1) u(1) l(2) u(2)])
  next
    fix x y assume "x \<in> nl" "y \<in> su"
    then obtain l u where l: "l \<in> set les" "a l < 0" "x = b l" and u: "u \<in> set lts" "0 < a u" "y = b u"
      unfolding nl_def su_def by auto
    show "x < y"
      unfolding l(3) u(3) b_def pair_bound_iff(1)[OF l(2) u(2), symmetric]
      by (rule ns[OF l(1) u(1) l(2) u(2)])
  next
    fix x y assume "x \<in> sl" "y \<in> nu"
    then obtain l u where l: "l \<in> set lts" "a l < 0" "x = b l" and u: "u \<in> set les" "0 < a u" "y = b u"
      unfolding sl_def nu_def by auto
    show "x < y"
      unfolding l(3) u(3) b_def pair_bound_iff(1)[OF l(2) u(2), symmetric]
      by (rule sn[OF l(1) u(1) l(2) u(2)])
  next
    fix x y assume "x \<in> sl" "y \<in> su"
    then obtain l u where l: "l \<in> set lts" "a l < 0" "x = b l" and u: "u \<in> set lts" "0 < a u" "y = b u"
      unfolding sl_def su_def by auto
    show "x < y"
      unfolding l(3) u(3) b_def pair_bound_iff(1)[OF l(2) u(2), symmetric]
      by (rule ss[OF l(1) u(1) l(2) u(2)])
  qed
  then obtain v where v: "\<forall>x\<in>sl. x < v" "\<forall>x\<in>nl. x \<le> v" "\<forall>x\<in>su. v < x" "\<forall>x\<in>nu. v \<le> x"
    by (elim exE conjE)
  have v1: "b p < v" if "p \<in> set lts" "a p < 0" for p
    using v(1) that unfolding sl_def by simp
  have v2: "b p \<le> v" if "p \<in> set les" "a p < 0" for p
    using v(2) that unfolding nl_def by simp
  have v3: "v < b p" if "p \<in> set lts" "0 < a p" for p
    using v(3) that unfolding su_def by simp
  have v4: "v \<le> b p" if "p \<in> set les" "0 < a p" for p
    using v(4) that unfolding nu_def by simp
  have A: "rr p + a p * v < 0" if p: "p \<in> set lts" for p
  proof -
    consider "a p = 0" | "a p < 0" | "0 < a p" by fastforce
    then show ?thesis
    proof cases
      case 1
      then show ?thesis using z1[OF p 1] by simp
    next
      case 2
      show ?thesis unfolding lower_bound_iff(1)[OF 2] using v1[OF p 2] by (simp add: b_def)
    next
      case 3
      show ?thesis unfolding upper_bound_iff(1)[OF 3] using v3[OF p 3] by (simp add: b_def)
    qed
  qed
  have B: "rr p + a p * v \<le> 0" if p: "p \<in> set les" for p
  proof -
    consider "a p = 0" | "a p < 0" | "0 < a p" by fastforce
    then show ?thesis
    proof cases
      case 1
      then show ?thesis using z2[OF p 1] by simp
    next
      case 2
      show ?thesis unfolding lower_bound_iff(2)[OF 2] using v2[OF p 2] by (simp add: b_def)
    next
      case 3
      show ?thesis unfolding upper_bound_iff(2)[OF 3] using v4[OF p 3] by (simp add: b_def)
    qed
  qed
  show ?thesis using A B by (intro exI[of _ v] conjI ballI)
qed

lemma fourier_motzkin_lt_cases:
  assumes "q \<in> set (fst (snd (fourier_motzkin k eqs lts les)))"
  obtains (keep) "q \<in> set lts" "monomial_coefficient q k = 0"
  | (ns) l u where "q = combine k l u" "l \<in> set les" "monomial_coefficient l k < 0"
      "u \<in> set lts" "0 < monomial_coefficient u k"
  | (sn) l u where "q = combine k l u" "l \<in> set lts" "monomial_coefficient l k < 0"
      "u \<in> set les" "0 < monomial_coefficient u k"
  | (ss) l u where "q = combine k l u" "l \<in> set lts" "monomial_coefficient l k < 0"
      "u \<in> set lts" "0 < monomial_coefficient u k"
  using assms unfolding fourier_motzkin_sets by blast

lemma fourier_motzkin_le_cases:
  assumes "q \<in> set (snd (snd (fourier_motzkin k eqs lts les)))"
  obtains (keep) "q \<in> set les" "monomial_coefficient q k = 0"
  | (nn) l u where "q = combine k l u" "l \<in> set les" "monomial_coefficient l k < 0"
      "u \<in> set les" "0 < monomial_coefficient u k"
  using assms unfolding fourier_motzkin_sets by blast

lemma fourier_motzkin_lt_intros:
  "q \<in> set lts \<Longrightarrow> monomial_coefficient q k = 0
     \<Longrightarrow> q \<in> set (fst (snd (fourier_motzkin k eqs lts les)))"
  "l \<in> set les \<Longrightarrow> monomial_coefficient l k < 0 \<Longrightarrow> u \<in> set lts \<Longrightarrow> 0 < monomial_coefficient u k
     \<Longrightarrow> combine k l u \<in> set (fst (snd (fourier_motzkin k eqs lts les)))"
  "l \<in> set lts \<Longrightarrow> monomial_coefficient l k < 0 \<Longrightarrow> u \<in> set les \<Longrightarrow> 0 < monomial_coefficient u k
     \<Longrightarrow> combine k l u \<in> set (fst (snd (fourier_motzkin k eqs lts les)))"
  "l \<in> set lts \<Longrightarrow> monomial_coefficient l k < 0 \<Longrightarrow> u \<in> set lts \<Longrightarrow> 0 < monomial_coefficient u k
     \<Longrightarrow> combine k l u \<in> set (fst (snd (fourier_motzkin k eqs lts les)))"
  unfolding fourier_motzkin_sets by blast+

lemma fourier_motzkin_le_intros:
  "q \<in> set les \<Longrightarrow> monomial_coefficient q k = 0
     \<Longrightarrow> q \<in> set (snd (snd (fourier_motzkin k eqs lts les)))"
  "l \<in> set les \<Longrightarrow> monomial_coefficient l k < 0 \<Longrightarrow> u \<in> set les \<Longrightarrow> 0 < monomial_coefficient u k
     \<Longrightarrow> combine k l u \<in> set (snd (snd (fourier_motzkin k eqs lts les)))"
  unfolding fourier_motzkin_sets by blast+

text \<open>The value of a combination and of a substituted polynomial, in the reduced ring.\<close>

lemma eval_reduced_combine:
  assumes k: "k < length R" and l: "length (coeffs l) = length R" and u: "length (coeffs u) = length R"
  shows "eval_poly (take k R @ drop (Suc k) R) (drop_coordinate k (combine k l u)) \<rho> =
         monomial_coefficient u k * eval_poly (take k R @ drop (Suc k) R) (drop_coordinate k l) \<rho>
         - monomial_coefficient l k * eval_poly (take k R @ drop (Suc k) R) (drop_coordinate k u) \<rho>"
proof -
  let ?R' = "take k R @ drop (Suc k) R"
  have c: "length (coeffs (combine k l u)) = length R" using l u by (rule length_combine)
  have "eval_poly R (combine k l u) \<rho> = eval_poly ?R' (drop_coordinate k (combine k l u)) \<rho>"
    using eval_drop_coordinate[OF k c, of \<rho>] monomial_coefficient_combine[OF l u k] by simp
  moreover have "eval_poly R (combine k l u) \<rho> =
      monomial_coefficient u k * eval_poly R l \<rho> - monomial_coefficient l k * eval_poly R u \<rho>"
    using l u by (rule eval_combine)
  ultimately show ?thesis
    unfolding eval_drop_coordinate[OF k l, of \<rho>] eval_drop_coordinate[OF k u, of \<rho>]
    by (simp add: algebra_simps)
qed

lemma eval_reduced_substitute:
  assumes k: "k < length R" and e: "length (coeffs e) = length R"
    and q: "length (coeffs q) = length R" and a: "monomial_coefficient e k \<noteq> 0"
  shows "eval_poly (take k R @ drop (Suc k) R)
           (drop_coordinate k
              (substitute (length R) k (psub (gen (length R) k) (sdiv e (monomial_coefficient e k))) q)) \<rho> =
         eval_poly (take k R @ drop (Suc k) R) (drop_coordinate k q) \<rho>
         - monomial_coefficient q k *
             (eval_poly (take k R @ drop (Suc k) R) (drop_coordinate k e) \<rho> / monomial_coefficient e k)"
proof -
  let ?R' = "take k R @ drop (Suc k) R"
  let ?a = "monomial_coefficient e k"
  let ?s = "substitute (length R) k (psub (gen (length R) k) (sdiv e ?a)) q"
  have c: "length (coeffs ?s) = length R" using e q by (rule length_substitute)
  have "eval_poly R ?s \<rho> = eval_poly ?R' (drop_coordinate k ?s) \<rho>"
    using eval_drop_coordinate[OF k c, of \<rho>] monomial_coefficient_substitute[OF e q k a] by simp
  moreover have "eval_poly R ?s \<rho> = eval_poly R q \<rho> - monomial_coefficient q k * (eval_poly R e \<rho> / ?a)"
    using e q k by (rule eval_substitute)
  ultimately show ?thesis
    unfolding eval_drop_coordinate[OF k e, of \<rho>] eval_drop_coordinate[OF k q, of \<rho>]
    using a by (simp add: field_simps)
qed

lemma fourier_motzkin_projects:
  fixes rr a :: "'a::linordered_field linpoly \<Rightarrow> 'a"
  assumes a: "\<And>p. a p = monomial_coefficient p k"
    and az: "\<And>q. q \<in> set eqs \<Longrightarrow> a q = 0"
    and C: "\<And>l u. l \<in> set lts \<union> set les \<Longrightarrow> u \<in> set lts \<union> set les
              \<Longrightarrow> rr (combine k l u) = a u * rr l - a l * rr u"
  shows "((\<forall>q\<in>set (fst (fourier_motzkin k eqs lts les)). rr q = 0) \<and>
          (\<forall>q\<in>set (fst (snd (fourier_motzkin k eqs lts les))). rr q < 0) \<and>
          (\<forall>q\<in>set (snd (snd (fourier_motzkin k eqs lts les))). rr q \<le> 0)) =
         (\<exists>v. (\<forall>q\<in>set eqs. rr q + a q * v = 0) \<and>
              (\<forall>q\<in>set lts. rr q + a q * v < 0) \<and>
              (\<forall>q\<in>set les. rr q + a q * v \<le> 0))"
    (is "?res = ?proj")
proof
  assume res: ?res
  then have R1: "\<And>q. q \<in> set eqs \<Longrightarrow> rr q = 0"
    and R2: "\<And>q. q \<in> set (fst (snd (fourier_motzkin k eqs lts les))) \<Longrightarrow> rr q < 0"
    and R3: "\<And>q. q \<in> set (snd (snd (fourier_motzkin k eqs lts les))) \<Longrightarrow> rr q \<le> 0"
    by (simp_all add: fourier_motzkin_sets(1))
  have "\<exists>v. (\<forall>p\<in>set lts. rr p + a p * v < 0) \<and> (\<forall>p\<in>set les. rr p + a p * v \<le> 0)"
  proof (rule fourier_motzkin_complete)
    fix p assume "p \<in> set lts" "a p = 0"
    then show "rr p < 0" using R2 fourier_motzkin_lt_intros(1) a by metis
  next
    fix p assume "p \<in> set les" "a p = 0"
    then show "rr p \<le> 0" using R3 fourier_motzkin_le_intros(1) a by metis
  next
    fix l u assume h: "l \<in> set les" "u \<in> set lts" "a l < 0" "0 < a u"
    then have "combine k l u \<in> set (fst (snd (fourier_motzkin k eqs lts les)))"
      unfolding a by (intro fourier_motzkin_lt_intros(2))
    then have "rr (combine k l u) < 0" by (rule R2)
    then show "a u * rr l - a l * rr u < 0" using C h(1,2) by simp
  next
    fix l u assume h: "l \<in> set lts" "u \<in> set les" "a l < 0" "0 < a u"
    then have "combine k l u \<in> set (fst (snd (fourier_motzkin k eqs lts les)))"
      unfolding a by (intro fourier_motzkin_lt_intros(3))
    then have "rr (combine k l u) < 0" by (rule R2)
    then show "a u * rr l - a l * rr u < 0" using C h(1,2) by simp
  next
    fix l u assume h: "l \<in> set lts" "u \<in> set lts" "a l < 0" "0 < a u"
    then have "combine k l u \<in> set (fst (snd (fourier_motzkin k eqs lts les)))"
      unfolding a by (intro fourier_motzkin_lt_intros(4))
    then have "rr (combine k l u) < 0" by (rule R2)
    then show "a u * rr l - a l * rr u < 0" using C h(1,2) by simp
  next
    fix l u assume h: "l \<in> set les" "u \<in> set les" "a l < 0" "0 < a u"
    then have "combine k l u \<in> set (snd (snd (fourier_motzkin k eqs lts les)))"
      unfolding a by (intro fourier_motzkin_le_intros(2))
    then have "rr (combine k l u) \<le> 0" by (rule R3)
    then show "a u * rr l - a l * rr u \<le> 0" using C h(1,2) by simp
  qed
  then obtain v where v: "\<forall>p\<in>set lts. rr p + a p * v < 0" "\<forall>p\<in>set les. rr p + a p * v \<le> 0"
    by (elim exE conjE)
  have "\<forall>q\<in>set eqs. rr q + a q * v = 0" using R1 az by simp
  then show ?proj using v by (intro exI[of _ v] conjI)
next
  assume ?proj
  then obtain v where S1: "\<And>q. q \<in> set eqs \<Longrightarrow> rr q + a q * v = 0"
    and S2: "\<And>q. q \<in> set lts \<Longrightarrow> rr q + a q * v < 0"
    and S3: "\<And>q. q \<in> set les \<Longrightarrow> rr q + a q * v \<le> 0"
    by blast
  have R1: "\<forall>q\<in>set (fst (fourier_motzkin k eqs lts les)). rr q = 0"
    unfolding fourier_motzkin_sets(1) using S1 az by force
  have R2: "\<forall>q\<in>set (fst (snd (fourier_motzkin k eqs lts les))). rr q < 0"
  proof
    fix q assume "q \<in> set (fst (snd (fourier_motzkin k eqs lts les)))"
    then show "rr q < 0"
    proof (cases rule: fourier_motzkin_lt_cases)
      case keep
      then show ?thesis using S2[of q] a by simp
    next
      case (ns l u)
      have "a u * rr l - a l * rr u < 0"
        by (rule fourier_motzkin_sound(2)[of a l u rr v])
          (use ns a S3[of l] S2[of u] in simp_all)
      then show ?thesis using C[of l u] ns by simp
    next
      case (sn l u)
      have "a u * rr l - a l * rr u < 0"
        by (rule fourier_motzkin_sound(3)[of a l u rr v])
          (use sn a S2[of l] S3[of u] in simp_all)
      then show ?thesis using C[of l u] sn by simp
    next
      case (ss l u)
      have "a u * rr l - a l * rr u < 0"
        by (rule fourier_motzkin_sound(4)[of a l u rr v])
          (use ss a S2[of l] S2[of u] in simp_all)
      then show ?thesis using C[of l u] ss by simp
    qed
  qed
  have R3: "\<forall>q\<in>set (snd (snd (fourier_motzkin k eqs lts les))). rr q \<le> 0"
  proof
    fix q assume "q \<in> set (snd (snd (fourier_motzkin k eqs lts les)))"
    then show "rr q \<le> 0"
    proof (cases rule: fourier_motzkin_le_cases)
      case keep
      then show ?thesis using S3[of q] a by simp
    next
      case (nn l u)
      have "a u * rr l - a l * rr u \<le> 0"
        by (rule fourier_motzkin_sound(1)[of a l u rr v])
          (use nn a S3[of l] S3[of u] in simp_all)
      then show ?thesis using C[of l u] nn by simp
    qed
  qed
  show ?res using R1 R2 R3 by (intro conjI)
qed

lemma substitution_projects:
  fixes rr a :: "'a::linordered_field linpoly \<Rightarrow> 'a"
  assumes e: "e \<in> set eqs" "a e \<noteq> 0"
    and S: "\<And>q. q \<in> set eqs \<union> set lts \<union> set les \<Longrightarrow> rr (sub q) = rr q - a q * (rr e / a e)"
  shows "((\<forall>q\<in>set (map sub eqs). rr q = 0) \<and>
          (\<forall>q\<in>set (map sub lts). rr q < 0) \<and>
          (\<forall>q\<in>set (map sub les). rr q \<le> 0)) =
         (\<exists>v. (\<forall>q\<in>set eqs. rr q + a q * v = 0) \<and>
              (\<forall>q\<in>set lts. rr q + a q * v < 0) \<and>
              (\<forall>q\<in>set les. rr q + a q * v \<le> 0))"
    (is "?res = ?proj")
proof -
  define v0 where "v0 = - (rr e / a e)"
  have T: "rr (sub q) = rr q + a q * v0" if "q \<in> set eqs \<union> set lts \<union> set les" for q
    unfolding v0_def S[OF that] by simp
  have res: "?res = ((\<forall>q\<in>set eqs. rr q + a q * v0 = 0) \<and>
              (\<forall>q\<in>set lts. rr q + a q * v0 < 0) \<and>
              (\<forall>q\<in>set les. rr q + a q * v0 \<le> 0))"
    using T by auto
  have only: "v = v0" if "\<forall>q\<in>set eqs. rr q + a q * v = 0" for v
  proof -
    have "rr e + a e * v = 0" using that e(1) by blast
    then have "a e * v = - rr e" by (simp add: add_eq_0_iff)
    then have "v = - rr e / a e" using e(2) by (simp add: field_simps)
    then show ?thesis by (simp add: v0_def)
  qed
  show ?thesis
  proof
    assume ?res
    then show ?proj unfolding res by (intro exI[of _ v0])
  next
    assume ?proj
    then obtain v where v: "(\<forall>q\<in>set eqs. rr q + a q * v = 0) \<and>
              (\<forall>q\<in>set lts. rr q + a q * v < 0) \<and>
              (\<forall>q\<in>set les. rr q + a q * v \<le> 0)" by (elim exE)
    then have "v = v0" using only by blast
    then show ?res unfolding res using v by simp
  qed
qed

lemma elimination_projects:
  fixes s :: "('v, 'a::linordered_field) bsa"
  assumes wf: "well_formed s" and i: "0 \<le> i" "i < int (length (poly_ring s))"
  shows "\<exists>r. one_step_elimination s i = Inr r \<and> well_formed r \<and>
           poly_ring r = take (nat i) (poly_ring s) @ drop (Suc (nat i)) (poly_ring s) \<and>
           (\<forall>\<rho>. satisfies r \<rho> = (\<exists>v. satisfies s (\<rho>(poly_ring s ! nat i := v))))"
proof -
  let ?R = "poly_ring s"
  let ?n = "length ?R"
  let ?k = "nat i"
  let ?R' = "take ?k ?R @ drop (Suc ?k) ?R"
  let ?eqs = "members (eq_poly s)"
  let ?lts = "members (lt_poly s)"
  let ?les = "members (le_poly s)"
  let ?new = "new_lists ?n ?k ?eqs ?lts ?les"
  have k: "?k < ?n" using i by linarith
  have d: "distinct ?R" using wf by (simp add: well_formed_def)
  have len: "\<And>p. p \<in> set ?eqs \<union> set ?lts \<union> set ?les \<Longrightarrow> length (coeffs p) = ?n"
    using well_formed_length[OF wf] .
  from one_step_elimination_well_formed[OF wf i] obtain r where
    r: "one_step_elimination s i = Inr r"
    and ring: "poly_ring r = ?R'"
    and e: "set (members (eq_poly r)) = drop_coordinate ?k ` set (fst ?new)"
    and l: "set (members (lt_poly r)) = drop_coordinate ?k ` set (fst (snd ?new))"
    and m: "set (members (le_poly r)) = drop_coordinate ?k ` set (snd (snd ?new))"
    and wfr: "well_formed r"
    by (elim exE conjE)
  have sem: "satisfies r \<rho> = (\<exists>v. satisfies s (\<rho>(?R ! ?k := v)))" for \<rho>
  proof -
    define rr where "rr p = eval_poly ?R' (drop_coordinate ?k p) \<rho>" for p :: "'a linpoly"
    define a where "a p = monomial_coefficient p ?k" for p :: "'a linpoly"
    have E: "eval_poly ?R p (\<rho>(?R ! ?k := v)) = rr p + a p * v"
      if "p \<in> set ?eqs \<union> set ?lts \<union> set ?les" for p v
      unfolding rr_def a_def by (rule eval_update[OF d k len[OF that]])
    have satr: "satisfies r \<rho> =
        ((\<forall>q\<in>set (fst ?new). rr q = 0) \<and> (\<forall>q\<in>set (fst (snd ?new)). rr q < 0) \<and>
         (\<forall>q\<in>set (snd (snd ?new)). rr q \<le> 0))"
      unfolding satisfies_def list_all_iff ring e l m rr_def by simp
    have sats: "satisfies s (\<rho>(?R ! ?k := v)) =
        ((\<forall>q\<in>set ?eqs. rr q + a q * v = 0) \<and> (\<forall>q\<in>set ?lts. rr q + a q * v < 0) \<and>
         (\<forall>q\<in>set ?les. rr q + a q * v \<le> 0))" for v
      unfolding satisfies_def list_all_iff using E by simp
    show ?thesis
    proof (cases "find (\<lambda>e. monomial_coefficient e ?k \<noteq> 0) ?eqs")
      case None
      then have new: "?new = fourier_motzkin ?k ?eqs ?lts ?les" by (simp add: new_lists_def)
      have az: "\<And>q. q \<in> set ?eqs \<Longrightarrow> a q = 0"
        using find_None_all[OF None] by (simp add: a_def)
      have C: "\<And>l u. l \<in> set ?lts \<union> set ?les \<Longrightarrow> u \<in> set ?lts \<union> set ?les
              \<Longrightarrow> rr (combine ?k l u) = a u * rr l - a l * rr u"
        unfolding rr_def a_def by (rule eval_reduced_combine[OF k]) (use len in blast)+
      show ?thesis
        unfolding satr sats new
        by (rule fourier_motzkin_projects[OF _ az C]) (simp_all add: a_def)
    next
      case (Some p)
      then have p: "p \<in> set ?eqs" "a p \<noteq> 0"
        using find_Some_member[OF Some] by (simp_all add: a_def)
      let ?sub = "substitute ?n ?k (psub (gen ?n ?k) (sdiv p (monomial_coefficient p ?k)))"
      have new: "fst ?new = map ?sub ?eqs" "fst (snd ?new) = map ?sub ?lts"
        "snd (snd ?new) = map ?sub ?les"
        using Some by (simp_all add: new_lists_def substitution_def Let_def)
      have lp: "length (coeffs p) = ?n" using len p(1) by blast
      have S: "\<And>q. q \<in> set ?eqs \<union> set ?lts \<union> set ?les \<Longrightarrow> rr (?sub q) = rr q - a q * (rr p / a p)"
        unfolding rr_def a_def
        by (rule eval_reduced_substitute[OF k lp len]) (use p in \<open>simp_all add: a_def\<close>)
      show ?thesis
        unfolding satr sats new
        by (rule substitution_projects[OF p S])
    qed
  qed
  show ?thesis
    by (rule exI[of _ r]) (intro conjI allI r wfr ring sem)
qed

lemma satisfies_cong:
  "(\<And>x. x \<in> set (poly_ring s) \<Longrightarrow> \<rho> x = \<rho>' x) \<Longrightarrow> satisfies s \<rho> = satisfies s \<rho>'"
  unfolding satisfies_def using eval_cong[of "poly_ring s" \<rho> \<rho>'] by simp

text \<open>
  C1. For a store whose polynomials belong to its ring and an index from \<open>0\<close> to
  \<open>ngens - 1\<close>, \<open>one_step_elimination\<close> returns a store over the remaining variables, in
  their order, and an assignment of the remaining variables satisfies it exactly when some
  value of the eliminated variable extends it to an assignment that satisfies every
  equality, strict and non-strict inequality of the input, whichever branch is taken.
\<close>

theorem one_step_elimination_projection:
  fixes s :: "('v, 'a::linordered_field) bsa"
  shows "well_formed s \<and> 0 \<le> i \<and> i < int (length (poly_ring s)) \<longrightarrow>
     (\<exists>r. one_step_elimination s i = Inr r \<and> well_formed r \<and>
          poly_ring r = take (nat i) (poly_ring s) @ drop (Suc (nat i)) (poly_ring s) \<and>
          (\<forall>\<rho>. satisfies r \<rho> = (\<exists>v. satisfies s (\<rho>(poly_ring s ! nat i := v)))) \<and>
          (\<forall>\<rho> \<rho>'. (\<forall>x\<in>set (poly_ring r). \<rho> x = \<rho>' x) \<longrightarrow> satisfies r \<rho> = satisfies r \<rho>'))"
proof (intro impI, elim conjE)
  assume wf: "well_formed s" and i: "0 \<le> i" "i < int (length (poly_ring s))"
  from elimination_projects[OF wf i] obtain r where
    r: "one_step_elimination s i = Inr r" and wfr: "well_formed r"
    and ring: "poly_ring r = take (nat i) (poly_ring s) @ drop (Suc (nat i)) (poly_ring s)"
    and sem: "\<forall>\<rho>. satisfies r \<rho> = (\<exists>v. satisfies s (\<rho>(poly_ring s ! nat i := v)))"
    by (elim exE conjE)
  have cong: "\<forall>\<rho> \<rho>'. (\<forall>x\<in>set (poly_ring r). \<rho> x = \<rho>' x) \<longrightarrow> satisfies r \<rho> = satisfies r \<rho>'"
    using satisfies_cong[of r] by blast
  show "\<exists>r. one_step_elimination s i = Inr r \<and> well_formed r \<and>
          poly_ring r = take (nat i) (poly_ring s) @ drop (Suc (nat i)) (poly_ring s) \<and>
          (\<forall>\<rho>. satisfies r \<rho> = (\<exists>v. satisfies s (\<rho>(poly_ring s ! nat i := v)))) \<and>
          (\<forall>\<rho> \<rho>'. (\<forall>x\<in>set (poly_ring r). \<rho> x = \<rho>' x) \<longrightarrow> satisfies r \<rho> = satisfies r \<rho>')"
    by (rule exI[of _ r]) (intro conjI r wfr ring sem cong)
qed

lemma well_formed_feasible_store: "well_formed feasible_store"
  by (simp add: feasible_store_def well_formed_def)

theorem one_step_elimination_projection_witness:
  "well_formed feasible_store \<and>
   (\<exists>r. one_step_elimination feasible_store 0 = Inr r \<and> poly_ring r = [''y''] \<and>
        satisfies r (\<lambda>x. 0) \<and> \<not> satisfies r (\<lambda>x. 1))"
proof -
  have l: "length (poly_ring feasible_store) = 2" "poly_ring feasible_store = [''x'', ''y'']"
    by (simp_all add: feasible_store_def)
  from one_step_elimination_projection[of feasible_store 0] well_formed_feasible_store l(1)
  obtain r where r: "one_step_elimination feasible_store 0 = Inr r"
    and ring: "poly_ring r = take (nat 0) (poly_ring feasible_store)
                 @ drop (Suc (nat 0)) (poly_ring feasible_store)"
    and sem: "\<forall>\<rho>. satisfies r \<rho> =
                (\<exists>v. satisfies feasible_store (\<rho>(poly_ring feasible_store ! nat 0 := v)))"
    by auto
  have s: "satisfies feasible_store \<rho> = (\<rho> ''x'' + \<rho> ''y'' \<le> 0 \<and> - \<rho> ''x'' \<le> 0)" for \<rho> :: "string \<Rightarrow> rat"
    by (simp add: satisfies_def feasible_store_def eval_poly_def)
  have 1: "satisfies r (\<lambda>x. 0)"
    unfolding sem[rule_format] s l(2) by (intro exI[of _ 0]) simp
  have 2: "\<not> satisfies r (\<lambda>x. 1)"
    unfolding sem[rule_format] s l(2) by auto
  have 3: "poly_ring r = [''y'']" unfolding ring l(2) by simp
  show ?thesis using well_formed_feasible_store r 1 2 3 by blast
qed

lemma reduced_filter:
  assumes d: "distinct R" and k: "k < length R"
  shows "take k R @ drop (Suc k) R = filter (\<lambda>x. x \<noteq> R ! k) R"
proof -
  have R: "R = take k R @ R ! k # drop (Suc k) R" using k by (simp add: id_take_nth_drop)
  have "distinct (take k R @ R ! k # drop (Suc k) R)" using d R by simp
  then have n: "R ! k \<notin> set (take k R)" "R ! k \<notin> set (drop (Suc k) R)" by auto
  have f1: "filter (\<lambda>x. x \<noteq> R ! k) (take k R) = take k R"
    by (rule filter_True) (use n(1) in auto)
  have f2: "filter (\<lambda>x. x \<noteq> R ! k) (drop (Suc k) R) = drop (Suc k) R"
    by (rule filter_True) (use n(2) in auto)
  have "filter (\<lambda>x. x \<noteq> R ! k) R =
        filter (\<lambda>x. x \<noteq> R ! k) (take k R @ R ! k # drop (Suc k) R)"
    using R by simp
  also have "\<dots> = take k R @ drop (Suc k) R"
    unfolding filter_append filter.simps f1 f2 by simp
  finally show ?thesis by simp
qed


lemma sequential_elimination_projects:
  fixes s :: "('v, 'a::linordered_field) bsa"
  assumes "well_formed s" "distinct cs" "set cs \<subseteq> set (poly_ring s)"
  shows "\<exists>r. sequential_elimination s cs = Inr r \<and> well_formed r \<and>
             poly_ring r = filter (\<lambda>x. x \<notin> set cs) (poly_ring s) \<and>
             (\<forall>\<rho>. satisfies r \<rho> = (\<exists>\<rho>'. (\<forall>x. x \<notin> set cs \<longrightarrow> \<rho>' x = \<rho> x) \<and> satisfies s \<rho>'))"
  using assms
proof (induction cs arbitrary: s)
  case Nil
  have "satisfies s \<rho> = (\<exists>\<rho>'. (\<forall>x. x \<notin> set [] \<longrightarrow> \<rho>' x = \<rho> x) \<and> satisfies s \<rho>')" for \<rho>
  proof
    assume "satisfies s \<rho>"
    then show "\<exists>\<rho>'. (\<forall>x. x \<notin> set [] \<longrightarrow> \<rho>' x = \<rho> x) \<and> satisfies s \<rho>'"
      by (intro exI[of _ \<rho>]) simp
  next
    assume "\<exists>\<rho>'. (\<forall>x. x \<notin> set [] \<longrightarrow> \<rho>' x = \<rho> x) \<and> satisfies s \<rho>'"
    then obtain \<rho>' where "\<forall>x. \<rho>' x = \<rho> x" "satisfies s \<rho>'" by auto
    moreover then have "\<rho>' = \<rho>" by (simp add: fun_eq_iff)
    ultimately show "satisfies s \<rho>" by simp
  qed
  note n = this
  have a1: "sequential_elimination s [] = Inr s" by simp
  have a2: "poly_ring s = filter (\<lambda>x. x \<notin> set []) (poly_ring s)" by simp
  show ?case by (rule exI[of _ s]) (intro conjI allI a1 Nil.prems(1) a2 n)
next
  case (Cons c cs)
  let ?R = "poly_ring s"
  let ?k = "gens_index ?R c"
  have d: "distinct ?R" using Cons.prems(1) by (simp add: well_formed_def)
  have c: "c \<in> set ?R" "c \<notin> set cs" "distinct cs" using Cons.prems by auto
  have k: "?k < length ?R" and ck: "?R ! ?k = c"
    using c(1) gens_index_less nth_gens_index by fastforce+
  have i: "0 \<le> int ?k" "int ?k < int (length ?R)" using k by simp_all
  from elimination_projects[OF Cons.prems(1) i] obtain r1 where
    r1: "one_step_elimination s (int ?k) = Inr r1" and wf1: "well_formed r1"
    and ring1': "poly_ring r1 = take (nat (int ?k)) ?R @ drop (Suc (nat (int ?k))) ?R"
    and sem1': "\<forall>\<rho>. satisfies r1 \<rho> = (\<exists>v. satisfies s (\<rho>(?R ! nat (int ?k) := v)))"
    by (elim exE conjE)
  have ring1: "poly_ring r1 = take ?k ?R @ drop (Suc ?k) ?R" using ring1' by simp
  have sem1: "satisfies r1 \<rho> = (\<exists>v. satisfies s (\<rho>(c := v)))" for \<rho>
    using sem1'[rule_format, of \<rho>] ck by simp
  have sub: "set cs \<subseteq> set (poly_ring r1)"
    unfolding ring1 set_reduced[OF d k] ck using Cons.prems(2,3) by auto
  from Cons.IH[OF wf1 c(3) sub] obtain r where
    r: "sequential_elimination r1 cs = Inr r" and wfr: "well_formed r"
    and ring: "poly_ring r = filter (\<lambda>x. x \<notin> set cs) (poly_ring r1)"
    and sem: "\<forall>\<rho>. satisfies r \<rho> = (\<exists>\<rho>'. (\<forall>x. x \<notin> set cs \<longrightarrow> \<rho>' x = \<rho> x) \<and> satisfies r1 \<rho>')"
    by (elim exE conjE)
  have 1: "sequential_elimination s (c # cs) = Inr r" using r1 r by simp
  have 2: "poly_ring r = filter (\<lambda>x. x \<notin> set (c # cs)) ?R"
    unfolding ring ring1 reduced_filter[OF d k] ck filter_filter
    by (rule filter_cong) auto
  have 3: "satisfies r \<rho> = (\<exists>\<rho>'. (\<forall>x. x \<notin> set (c # cs) \<longrightarrow> \<rho>' x = \<rho> x) \<and> satisfies s \<rho>')" for \<rho>
  proof
    assume "satisfies r \<rho>"
    then have "\<exists>\<rho>'. (\<forall>x. x \<notin> set cs \<longrightarrow> \<rho>' x = \<rho> x) \<and> satisfies r1 \<rho>'"
      using sem[rule_format, of \<rho>] by simp
    then obtain \<rho>1 where a: "\<forall>x. x \<notin> set cs \<longrightarrow> \<rho>1 x = \<rho> x" and b1: "satisfies r1 \<rho>1"
      by (elim exE conjE)
    from b1 obtain v where b: "satisfies s (\<rho>1(c := v))"
      unfolding sem1 by (elim exE)
    have "\<forall>x. x \<notin> set (c # cs) \<longrightarrow> (\<rho>1(c := v)) x = \<rho> x" using a by simp
    then show "\<exists>\<rho>'. (\<forall>x. x \<notin> set (c # cs) \<longrightarrow> \<rho>' x = \<rho> x) \<and> satisfies s \<rho>'"
      using b by (intro exI[of _ "\<rho>1(c := v)"] conjI)
  next
    assume "\<exists>\<rho>'. (\<forall>x. x \<notin> set (c # cs) \<longrightarrow> \<rho>' x = \<rho> x) \<and> satisfies s \<rho>'"
    then obtain \<rho>' where a: "\<forall>x. x \<notin> set (c # cs) \<longrightarrow> \<rho>' x = \<rho> x" and b: "satisfies s \<rho>'"
      by (elim exE conjE)
    let ?\<rho>1 = "\<rho>'(c := \<rho> c)"
    have "?\<rho>1(c := \<rho>' c) = \<rho>'" by (simp add: fun_eq_iff)
    then have "satisfies s (?\<rho>1(c := \<rho>' c))" using b by simp
    then have "\<exists>v. satisfies s (?\<rho>1(c := v))" by (rule exI)
    then have c1: "satisfies r1 ?\<rho>1" unfolding sem1 .
    have c2: "\<forall>x. x \<notin> set cs \<longrightarrow> ?\<rho>1 x = \<rho> x" using a by simp
    have "\<exists>\<rho>'. (\<forall>x. x \<notin> set cs \<longrightarrow> \<rho>' x = \<rho> x) \<and> satisfies r1 \<rho>'"
      using c1 c2 by (intro exI[of _ ?\<rho>1] conjI)
    then show "satisfies r \<rho>" using sem[rule_format, of \<rho>] by simp
  qed
  show ?case
    by (rule exI[of _ r]) (intro conjI allI 1 wfr 2 3)
qed


lemma coordinate_projection_projects:
  fixes s :: "('v, 'a::linordered_field) bsa"
  assumes wf: "well_formed s" and dc: "distinct cs" and sub: "set cs \<subseteq> set (poly_ring s)"
  shows "\<exists>r. coordinate_projection s cs = Inr r \<and> well_formed r \<and>
             poly_ring r = filter (\<lambda>x. x \<notin> set cs) (poly_ring s) \<and>
             (\<forall>\<rho>. satisfies r \<rho> = (\<exists>\<rho>'. (\<forall>x. x \<notin> set cs \<longrightarrow> \<rho>' x = \<rho> x) \<and> satisfies s \<rho>'))"
proof -
  have d: "distinct (poly_ring s)" using wf by (simp add: well_formed_def)
  have valid: "\<not> list_ex (\<lambda>c. c \<notin> set (poly_ring s)) cs"
    using sub by (auto simp: list_ex_iff)
  have "coordinate_projection s cs = sequential_elimination s cs"
    unfolding coordinate_projection_def
    using valid eliminate_positions_sequential[OF d dc sub] by simp
  then show ?thesis using sequential_elimination_projects[OF wf dc sub] by simp
qed

text \<open>
  C3. For a store whose polynomials belong to its ring and a set of target variables of
  the ring, \<open>coordinate_projection\<close> returns, for every order of the targets, a store over
  the same remaining variables with the same satisfying assignments: in each order the result
  is satisfied exactly by the assignments that some values of the targets extend to an
  assignment that satisfies the input.
\<close>

theorem coordinate_projection_order:
  fixes s :: "('v, 'a::linordered_field) bsa"
  shows "well_formed s \<and> distinct cs \<and> set cs \<subseteq> set (poly_ring s) \<and> mset cs' = mset cs \<longrightarrow>
     (\<exists>r r'. coordinate_projection s cs = Inr r \<and> coordinate_projection s cs' = Inr r' \<and>
        poly_ring r = poly_ring r' \<and>
        (\<forall>\<rho>. satisfies r \<rho> = satisfies r' \<rho>) \<and>
        (\<forall>\<rho>. satisfies r \<rho> = (\<exists>\<rho>'. (\<forall>x. x \<notin> set cs \<longrightarrow> \<rho>' x = \<rho> x) \<and> satisfies s \<rho>')))"
proof (intro impI, elim conjE)
  assume wf: "well_formed s" and dc: "distinct cs" and sub: "set cs \<subseteq> set (poly_ring s)"
    and perm: "mset cs' = mset cs"
  have set': "set cs' = set cs" using perm by (rule mset_eq_setD)
  have dc': "distinct cs'" using mset_eq_imp_distinct_iff[OF perm] dc by simp
  have sub': "set cs' \<subseteq> set (poly_ring s)" using sub set' by simp
  from coordinate_projection_projects[OF wf dc sub] obtain r where
    r: "coordinate_projection s cs = Inr r"
    and ring: "poly_ring r = filter (\<lambda>x. x \<notin> set cs) (poly_ring s)"
    and sem: "\<forall>\<rho>. satisfies r \<rho> = (\<exists>\<rho>'. (\<forall>x. x \<notin> set cs \<longrightarrow> \<rho>' x = \<rho> x) \<and> satisfies s \<rho>')"
    by (elim exE conjE)
  from coordinate_projection_projects[OF wf dc' sub'] obtain r' where
    r': "coordinate_projection s cs' = Inr r'"
    and ring': "poly_ring r' = filter (\<lambda>x. x \<notin> set cs') (poly_ring s)"
    and sem': "\<forall>\<rho>. satisfies r' \<rho> = (\<exists>\<rho>'. (\<forall>x. x \<notin> set cs' \<longrightarrow> \<rho>' x = \<rho> x) \<and> satisfies s \<rho>')"
    by (elim exE conjE)
  have 1: "poly_ring r = poly_ring r'" unfolding ring ring' set' by (rule refl)
  have 2: "\<forall>\<rho>. satisfies r \<rho> = satisfies r' \<rho>"
  proof
    fix \<rho>
    show "satisfies r \<rho> = satisfies r' \<rho>"
      unfolding sem[rule_format, of \<rho>] sem'[rule_format, of \<rho>] set' by (rule refl)
  qed
  show "\<exists>r r'. coordinate_projection s cs = Inr r \<and> coordinate_projection s cs' = Inr r' \<and>
        poly_ring r = poly_ring r' \<and>
        (\<forall>\<rho>. satisfies r \<rho> = satisfies r' \<rho>) \<and>
        (\<forall>\<rho>. satisfies r \<rho> = (\<exists>\<rho>'. (\<forall>x. x \<notin> set cs \<longrightarrow> \<rho>' x = \<rho> x) \<and> satisfies s \<rho>'))"
    by (rule exI[of _ r], rule exI[of _ r']) (intro conjI r r' 1 2 sem)
qed

theorem coordinate_projection_order_witness:
  "well_formed feasible_store \<and> mset [''y'', ''x''] = mset [''x'', ''y''] \<and>
   (\<exists>r r'. coordinate_projection feasible_store [''x'', ''y''] = Inr r \<and>
      coordinate_projection feasible_store [''y'', ''x''] = Inr r' \<and>
      poly_ring r = poly_ring r' \<and>
      satisfies r (\<lambda>x. 0) = satisfies r' (\<lambda>x. 0))"
proof -
  have h: "distinct [''x'', ''y'']" "set [''x'', ''y''] \<subseteq> set (poly_ring feasible_store)"
    "mset [''y'', ''x''] = mset [''x'', ''y'']"
    by (simp_all add: feasible_store_def)
  from coordinate_projection_order[of feasible_store "[''x'', ''y'']" "[''y'', ''x'']"]
    well_formed_feasible_store h
  obtain r r' where "coordinate_projection feasible_store [''x'', ''y''] = Inr r"
    "coordinate_projection feasible_store [''y'', ''x''] = Inr r'"
    "poly_ring r = poly_ring r'" "\<forall>\<rho>. satisfies r \<rho> = satisfies r' \<rho>"
    by blast
  then show ?thesis using well_formed_feasible_store h(3) by blast
qed

end
